theory Spec2Isabelle
  imports Complex_Main "HOL-Library.Sublist"
begin

section \<open>Characters and strings\<close>

text \<open>
  A Python \<open>str\<close> is modelled as a list of code points below U+0100 (Latin-1), the range
  of \<^typ>\<open>char\<close>. The character predicates below are the ones of CPython restricted to
  that range: \<open>str.isalnum\<close>, \<open>str.lower\<close>, \<open>str.isspace\<close> (which is also the class
  \<open>\s\<close> of \<open>re\<close> on \<open>str\<close> patterns) and the class \<open>\d\<close>. Code points from U+0100 on
  are outside the model. Python's \<open>float\<close> is modelled by exact rationals.
\<close>

definition isalnum :: "char \<Rightarrow> bool" where
  "isalnum c = (let n = (of_char c :: nat) in
     (48 \<le> n \<and> n \<le> 57) \<or> (65 \<le> n \<and> n \<le> 90) \<or> (97 \<le> n \<and> n \<le> 122) \<or>
     n \<in> {170, 178, 179, 181, 185, 186, 188, 189, 190} \<or>
     (192 \<le> n \<and> n \<le> 214) \<or> (216 \<le> n \<and> n \<le> 246) \<or> (248 \<le> n \<and> n \<le> 255))"

definition lower_char :: "char \<Rightarrow> char" where
  "lower_char c = (let n = (of_char c :: nat) in
     if (65 \<le> n \<and> n \<le> 90) \<or> (192 \<le> n \<and> n \<le> 214) \<or> (216 \<le> n \<and> n \<le> 222)
     then char_of (n + 32) else c)"

definition isspace :: "char \<Rightarrow> bool" where
  "isspace c = (let n = (of_char c :: nat) in
     (9 \<le> n \<and> n \<le> 13) \<or> (28 \<le> n \<and> n \<le> 32) \<or> n = 133 \<or> n = 160)"

definition isdecimal :: "char \<Rightarrow> bool" where
  "isdecimal c = (let n = (of_char c :: nat) in 48 \<le> n \<and> n \<le> 57)"

text \<open>The characters of the regular expression \<open>[a-z0-9_]\<close>.\<close>

definition ascii_word_char :: "char \<Rightarrow> bool" where
  "ascii_word_char c = (c \<in> set ''abcdefghijklmnopqrstuvwxyz0123456789_'')"

definition is_ascii :: "char \<Rightarrow> bool" where
  "is_ascii c = ((of_char c :: nat) < 128)"

text \<open>\<open>s.strip(chars)\<close>, with the set of stripped characters as a predicate;
  \<open>s.strip()\<close> strips white space.\<close>

definition strip_chars :: "('a \<Rightarrow> bool) \<Rightarrow> 'a list \<Rightarrow> 'a list" where
  "strip_chars p s = rev (dropWhile p (rev (dropWhile p s)))"

definition strip :: "string \<Rightarrow> string" where
  "strip s = strip_chars isspace s"

text \<open>\<open>int(s)\<close> on a string of decimal digits.\<close>

definition int_of_digits :: "string \<Rightarrow> nat" where
  "int_of_digits s = foldl (\<lambda>n c. 10 * n + ((of_char c :: nat) - 48)) 0 s"

text \<open>The format \<open>f"{i:03}"\<close>: decimal, padded with zeros to three digits.\<close>

fun dec :: "nat \<Rightarrow> string" where
  "dec n = (if n < 10 then [char_of (48 + n)] else dec (n div 10) @ [char_of (48 + n mod 10)])"

declare dec.simps [simp del]

definition fmt03 :: "nat \<Rightarrow> string" where
  "fmt03 n = replicate (3 - length (dec n)) (CHR ''0'') @ dec n"

section \<open>run\_loop\_docker.py: sanitize\<close>

text \<open>\<open>"".join(c if c.isalnum() else "_" for c in name).strip("_").lower()\<close>\<close>

definition sanitize :: "string \<Rightarrow> string" where
  "sanitize name = map lower_char
     (strip_chars (\<lambda>c. c = CHR ''_'') (map (\<lambda>c. if isalnum c then c else CHR ''_'') name))"

text \<open>
  \<open>str.lower\<close> is not character by character on all of Unicode: it maps U+0130
  (capital I with dot above) to the two code points U+0069 U+0307, and U+0307 (combining
  dot above) is not alphanumeric. To state what \<open>sanitize\<close> does there, the same
  expression is written a second time on code points as natural numbers, with \<open>lower\<close>
  giving a string. \<open>cp_isalnum\<close> and \<open>cp_lower\<close> are CPython's tables on the code
  points that \<open>in_tables\<close> lists: U+0000 to U+00FF (as above), U+0130 and U+0307. No
  statement below is about any other code point.
\<close>

definition in_tables :: "nat \<Rightarrow> bool" where
  "in_tables n = (n < 256 \<or> n = 0x130 \<or> n = 0x307)"

definition cp_isalnum :: "nat \<Rightarrow> bool" where
  "cp_isalnum n = (if n < 256 then isalnum (char_of n) else n = 0x130)"

definition cp_lower :: "nat \<Rightarrow> nat list" where
  "cp_lower n =
     (if n < 256 then [of_char (lower_char (char_of n))]
      else if n = 0x130 then [0x69, 0x307]
      else [n])"

definition sanitize_cp :: "nat list \<Rightarrow> nat list" where
  "sanitize_cp name = concat (map cp_lower
     (strip_chars (\<lambda>c. c = 0x5F) (map (\<lambda>c. if cp_isalnum c then c else 0x5F) name)))"

text \<open>The code points of \<open>[a-z0-9_]\<close>.\<close>

definition cp_word :: "nat \<Rightarrow> bool" where
  "cp_word n = (n < 256 \<and> ascii_word_char (char_of n))"

section \<open>The fragment of \<open>re\<close> the program uses\<close>

text \<open>
  The four patterns of the program are sequences of single characters, character classes
  under \<open>*\<close>, \<open>+\<close> and \<open>*?\<close>, and capture groups that are not nested. \<open>bt\<close> is the
  backtracking matcher of \<open>re\<close> on such sequences, anchored at the start of its input: a
  greedy quantifier tries the longest run first, a lazy one the shortest, and the first
  alternative whose continuation matches wins. It returns the captured groups.
  \<open>re_search\<close> tries every start position from left to right, as \<open>re.search\<close> does.
\<close>

datatype cls = Exact char | NoCase char | Space | Digit | AnyChar

fun cls_ok :: "cls \<Rightarrow> char \<Rightarrow> bool" where
  "cls_ok (Exact c) x = (x = c)"
| "cls_ok (NoCase c) x = (lower_char x = lower_char c)"
| "cls_ok Space x = isspace x"
| "cls_ok Digit x = isdecimal x"
| "cls_ok AnyChar x = True"

datatype item = One cls | Many cls | Many1 cls | Few cls | GOpen | GClose

fun push :: "char \<Rightarrow> string option \<Rightarrow> string option" where
  "push x None = None"
| "push x (Some g) = Some (g @ [x])"

fun closed :: "string option \<Rightarrow> string" where
  "closed None = []"
| "closed (Some g) = g"

fun bt :: "item list \<Rightarrow> string \<Rightarrow> string list \<Rightarrow> string option \<Rightarrow> string list option" where
  "bt [] s d c = Some d"
| "bt (One k # is) [] d c = None"
| "bt (One k # is) (x # xs) d c = (if cls_ok k x then bt is xs d (push x c) else None)"
| "bt (Many k # is) [] d c = bt is [] d c"
| "bt (Many k # is) (x # xs) d c =
     (if cls_ok k x then
        (case bt (Many k # is) xs d (push x c) of
           Some r \<Rightarrow> Some r
         | None \<Rightarrow> bt is (x # xs) d c)
      else bt is (x # xs) d c)"
| "bt (Many1 k # is) [] d c = None"
| "bt (Many1 k # is) (x # xs) d c =
     (if cls_ok k x then bt (Many k # is) xs d (push x c) else None)"
| "bt (Few k # is) [] d c = bt is [] d c"
| "bt (Few k # is) (x # xs) d c =
     (case bt is (x # xs) d c of
        Some r \<Rightarrow> Some r
      | None \<Rightarrow> if cls_ok k x then bt (Few k # is) xs d (push x c) else None)"
| "bt (GOpen # is) s d c = bt is s d (Some [])"
| "bt (GClose # is) s d c = bt is s (d @ [closed c]) None"

fun re_search :: "item list \<Rightarrow> string \<Rightarrow> string list option" where
  "re_search p [] = bt p [] [] None"
| "re_search p (x # xs) =
     (case bt p (x # xs) [] None of Some g \<Rightarrow> Some g | None \<Rightarrow> re_search p xs)"

text \<open>
  What it means for a whole string \<open>w\<close> to match a pattern, with the groups it captures:
  the usual language of the regular expression, with no order among the alternatives.
  \<open>d\<close> holds the groups already closed and \<open>c\<close> the group being read, if any.
\<close>

fun pushes :: "string \<Rightarrow> string option \<Rightarrow> string option" where
  "pushes u None = None"
| "pushes u (Some g) = Some (g @ u)"

fun rx :: "item list \<Rightarrow> string \<Rightarrow> string list \<Rightarrow> string option \<Rightarrow> string list \<Rightarrow> bool" where
  "rx [] w d c gs = (w = [] \<and> gs = d)"
| "rx (One k # is) w d c gs = (\<exists>x v. w = x # v \<and> cls_ok k x \<and> rx is v d (push x c) gs)"
| "rx (Many k # is) w d c gs =
     (\<exists>u v. w = u @ v \<and> (\<forall>x\<in>set u. cls_ok k x) \<and> rx is v d (pushes u c) gs)"
| "rx (Many1 k # is) w d c gs =
     (\<exists>u v. w = u @ v \<and> u \<noteq> [] \<and> (\<forall>x\<in>set u. cls_ok k x) \<and> rx is v d (pushes u c) gs)"
| "rx (Few k # is) w d c gs =
     (\<exists>u v. w = u @ v \<and> (\<forall>x\<in>set u. cls_ok k x) \<and> rx is v d (pushes u c) gs)"
| "rx (GOpen # is) w d c gs = rx is w d (Some []) gs"
| "rx (GClose # is) w d c gs = rx is w (d @ [closed c]) None gs"

definition occurs :: "item list \<Rightarrow> string \<Rightarrow> bool" where
  "occurs p t = (\<exists>pre w post gs. t = pre @ w @ post \<and> rx p w [] None gs)"

definition lit :: "string \<Rightarrow> item list" where
  "lit s = map (\<lambda>c. One (Exact c)) s"

definition lit_i :: "string \<Rightarrow> item list" where
  "lit_i s = map (\<lambda>c. One (NoCase c)) s"

abbreviation NL :: char where
  "NL \<equiv> CHR 0x0A"

text \<open>\<open>r"LLC TOTAL\s+ACCESS:\s+(\d+)\s+HIT:\s+(\d+)"\<close>\<close>

definition llc_pattern :: "item list" where
  "llc_pattern = lit ''LLC TOTAL'' @ [Many1 Space] @ lit ''ACCESS:'' @
     [Many1 Space, GOpen, Many1 Digit, GClose, Many1 Space] @ lit ''HIT:'' @
     [Many1 Space, GOpen, Many1 Digit, GClose]"

text \<open>The strings \<open>w\<close> that this pattern matches as a whole, with the digit strings
  \<open>a\<close> and \<open>h\<close> of its two groups, written out.\<close>

definition spaces1 :: "string \<Rightarrow> bool" where
  "spaces1 ws = (ws \<noteq> [] \<and> list_all isspace ws)"

definition digits1 :: "string \<Rightarrow> bool" where
  "digits1 ds = (ds \<noteq> [] \<and> list_all isdecimal ds)"

definition llc_match :: "string \<Rightarrow> string \<Rightarrow> string \<Rightarrow> bool" where
  "llc_match w a h =
     (\<exists>ws1 ws2 ws3 ws4.
        w = ''LLC TOTAL'' @ ws1 @ ''ACCESS:'' @ ws2 @ a @ ws3 @ ''HIT:'' @ ws4 @ h \<and>
        spaces1 ws1 \<and> spaces1 ws2 \<and> digits1 a \<and> spaces1 ws3 \<and> spaces1 ws4 \<and> digits1 h)"

text \<open>The pattern of the specification: \<open>ACCESS:\s*(\d+)\s+HIT:\s*(\d+)\<close>.\<close>

definition spec_pattern :: "item list" where
  "spec_pattern = lit ''ACCESS:'' @ [Many Space, GOpen, Many1 Digit, GClose, Many1 Space] @
     lit ''HIT:'' @ [Many Space, GOpen, Many1 Digit, GClose]"

text \<open>\<open>r"##\s*Policy\s*Name\s*\n(.*?)\n"\<close>, \<open>r"##\s*Policy\s*Description\s*\n(.*?)\n"\<close> and
  \<open>r"```cpp\s*(.*?)\s*```"\<close>, all three under \<open>re.DOTALL | re.IGNORECASE\<close>.\<close>

definition name_pattern :: "item list" where
  "name_pattern = lit_i ''##'' @ [Many Space] @ lit_i ''Policy'' @ [Many Space] @ lit_i ''Name'' @
     [Many Space, One (NoCase NL), GOpen, Few AnyChar, GClose, One (NoCase NL)]"

definition desc_pattern :: "item list" where
  "desc_pattern = lit_i ''##'' @ [Many Space] @ lit_i ''Policy'' @ [Many Space] @
     lit_i ''Description'' @
     [Many Space, One (NoCase NL), GOpen, Few AnyChar, GClose, One (NoCase NL)]"

definition code_pattern :: "item list" where
  "code_pattern = lit_i ''```cpp'' @ [Many Space, GOpen, Few AnyChar, GClose, Many Space] @
     lit_i ''```''"

section \<open>Errors\<close>

datatype exn = RuntimeError string | CalledProcessError | ZeroDivisionError
  | IndexError | KeyError

section \<open>Metric extraction\<close>

text \<open>\<open>parse_hit_rate\<close> of run\_loop\_docker.py and \<open>parse_llc_stats\<close> of
  DB\_Connection.py. \<open>m.group(1)\<close> and \<open>m.group(2)\<close> are \<open>gs ! 0\<close> and \<open>gs ! 1\<close>.\<close>

definition parse_hit_rate :: "string \<Rightarrow> exn + rat" where
  "parse_hit_rate output =
     (case re_search llc_pattern output of
        Some gs \<Rightarrow>
          (let access_count = int_of_digits (gs ! 0);
               hit_count = int_of_digits (gs ! 1)
           in if access_count > 0 then Inr (of_nat hit_count / of_nat access_count)
              else Inr 0)
      | None \<Rightarrow> Inl (RuntimeError ''LLC TOTAL not found''))"

definition parse_llc_stats :: "string \<Rightarrow> exn + nat \<times> nat" where
  "parse_llc_stats text =
     (case re_search llc_pattern text of
        None \<Rightarrow> Inl (RuntimeError ''LLC TOTAL line not found in ChampSim output'')
      | Some gs \<Rightarrow> Inr (int_of_digits (gs ! 0), int_of_digits (gs ! 1)))"

section \<open>Parsing the reply\<close>

definition extract_re :: "item list \<Rightarrow> string \<Rightarrow> string option" where
  "extract_re pattern text =
     (case re_search pattern text of Some gs \<Rightarrow> Some (strip (gs ! 0)) | None \<Rightarrow> None)"

definition parse_policy_content :: "string \<Rightarrow> string option \<times> string option \<times> string option" where
  "parse_policy_content text =
     (let name = extract_re name_pattern text;
          desc = extract_re desc_pattern text;
          code = extract_re code_pattern text
      in (name, desc, code))"

text \<open>Truth value of an \<open>Optional[str]\<close>: \<open>None\<close> and the empty string are false.\<close>

fun truthy :: "string option \<Rightarrow> bool" where
  "truthy None = False"
| "truthy (Some s) = (s \<noteq> [])"

text \<open>Lines 249 to 251 of \<open>main\<close>: parse, and raise unless all three are true.\<close>

definition parse_reply :: "string \<Rightarrow> exn + string \<times> string \<times> string" where
  "parse_reply text =
     (let (name, desc, code) = parse_policy_content text
      in if \<not> (truthy name \<and> truthy desc \<and> truthy code)
         then Inl (RuntimeError ''Parse failed'')
         else Inr (the name, the desc, the code))"

text \<open>
  Replies in the output format that the prompt asks for: some text without markers, then
  the three sections. A plain line is a non-empty line with no white space at its ends
  and no marker character; a code block is non-empty, has no white space at its ends
  and no backquote.
\<close>

definition plain_line :: "string \<Rightarrow> bool" where
  "plain_line x = (x \<noteq> [] \<and> \<not> isspace (hd x) \<and> \<not> isspace (last x) \<and>
     NL \<notin> set x \<and> CHR ''#'' \<notin> set x \<and> CHR ''`'' \<notin> set x)"

definition code_block :: "string \<Rightarrow> bool" where
  "code_block x = (x \<noteq> [] \<and> \<not> isspace (hd x) \<and> \<not> isspace (last x) \<and> CHR ''`'' \<notin> set x)"

definition no_marker :: "string \<Rightarrow> bool" where
  "no_marker x = (CHR ''#'' \<notin> set x \<and> CHR ''`'' \<notin> set x)"

definition formatted_reply :: "string \<Rightarrow> string \<Rightarrow> string \<Rightarrow> string \<Rightarrow> string \<Rightarrow> string" where
  "formatted_reply pre name desc code post =
     pre @ ''## Policy Name'' @ [NL] @ name @ [NL, NL] @
     ''## Policy Description'' @ [NL] @ desc @ [NL, NL] @
     ''## C++ Implementation'' @ [NL] @ ''```cpp'' @ [NL] @ code @ [NL] @ ''```'' @ post"

section \<open>The ledger\<close>

text \<open>A row of the table \<open>experiments\<close> (the key \<open>id\<close> is the position in the list).\<close>

record trial =
  workload :: string
  policy :: string
  policy_description :: string
  workload_description :: string
  cpp_file_path :: string
  cache_hit_rate :: rat
  score :: rat

text \<open>\<open>record\<close> of run\_loop\_docker.py: one \<open>INSERT\<close>, with \<open>rate\<close> in both numeric
  columns.\<close>

definition record_row ::
  "trial list \<Rightarrow> string \<Rightarrow> string \<Rightarrow> string \<Rightarrow> string \<Rightarrow> rat \<Rightarrow> string \<Rightarrow> trial list" where
  "record_row db w name desc cc rate workload_desc =
     db @ [\<lparr>workload = w, policy = name, policy_description = desc,
            workload_description = workload_desc, cpp_file_path = cc,
            cache_hit_rate = rate, score = rate\<rparr>]"

section \<open>The search loop of run\_loop\_docker.py\<close>

definition workloads :: "(string \<times> string) list" where
  "workloads =
     [(''astar'', ''ChampSim_CRC2/traces/astar_313B.trace.gz''),
      (''lbm'', ''ChampSim_CRC2/traces/lbm_564B.trace.gz''),
      (''mcf'', ''ChampSim_CRC2/traces/mcf_250B.trace.gz''),
      (''milc'', ''ChampSim_CRC2/traces/milc_409B.trace.gz''),
      (''omnetpp'', ''ChampSim_CRC2/traces/omnetpp_17B.trace.gz'')]"

text \<open>The variables of \<open>main\<close> that live across passes of \<open>while True\<close>, the table
  \<open>experiments\<close> and the files under \<open>EXAMPLE_DIR\<close>.\<close>

record loop_state =
  iter :: nat
  best_hit :: rat
  current_hit :: rat
  prev_name :: "string option"
  prev_desc :: "string option"
  prev_code :: "string option"
  db :: "trial list"
  disk :: "string \<rightharpoonup> string"

text \<open>What the outside world answers in one pass: the text of the model's reply, whether
  the compiler succeeds, and for each trace the simulator's output (\<open>None\<close> when the
  container exits with an error).\<close>

record pass_input =
  reply :: string
  build_ok :: bool
  runs :: "string \<Rightarrow> string option"

text \<open>The state before the loop. \<open>top_policies\<close> comes from the module \<open>RAG\<close>; only the
  scores of its rows matter here, and \<open>top_policies[0]\<close> raises on an empty list.\<close>

definition init_state :: "rat list \<Rightarrow> trial list \<Rightarrow> (string \<rightharpoonup> string) \<Rightarrow> exn + loop_state" where
  "init_state top_policies db0 disk0 =
     (case top_policies of
        [] \<Rightarrow> Inl IndexError
      | best # _ \<Rightarrow>
          Inr \<lparr>iter = 0, best_hit = best, current_hit = best,
               prev_name = None, prev_desc = None, prev_code = None,
               db = db0, disk = disk0\<rparr>)"

text \<open>The prompt, up to the parts that are the same in every pass (workload
  descriptions, the summary of the top policies, the code template): the cold-start
  prompt, or the previous design with the feedback sentence and the two rates it prints.\<close>

datatype feedback = Improved rat rat | NotBetter rat rat

datatype prompt = ColdStart
  | Refine "string option" "string option" "string option" feedback

text \<open>Lines 187 to 234: the prompt of this pass; the improvement branch assigns
  \<open>best_hit\<close>.\<close>

definition compose :: "loop_state \<Rightarrow> prompt \<times> loop_state" where
  "compose st =
     (if iter st = 0 then (ColdStart, st)
      else if current_hit st > best_hit st then
        (Refine (prev_name st) (prev_desc st) (prev_code st)
           (Improved (best_hit st) (current_hit st)),
         st\<lparr>best_hit := current_hit st\<rparr>)
      else
        (Refine (prev_name st) (prev_desc st) (prev_code st)
           (NotBetter (current_hit st) (best_hit st)),
         st))"

text \<open>\<open>EXAMPLE_DIR / f"{i:03}_{base}.cc"\<close>\<close>

definition cc_path :: "nat \<Rightarrow> string \<Rightarrow> string" where
  "cc_path i base = ''ChampSim_CRC2/new_policies/'' @ fmt03 i @ ''_'' @ base @ ''.cc''"

text \<open>Lines 266 to 274: the loop over the workloads. A failed run or a report without
  the metric raises; the rows recorded before stay in the table.\<close>

fun run_workloads ::
  "(string \<times> string) list \<Rightarrow> (string \<Rightarrow> string option) \<Rightarrow> string \<Rightarrow> string \<Rightarrow> string \<Rightarrow>
   rat \<Rightarrow> trial list \<Rightarrow> exn \<times> trial list + rat \<times> trial list" where
  "run_workloads [] rn name desc cc current_hit_tmp tbl = Inr (current_hit_tmp, tbl)"
| "run_workloads ((w, trace_path) # rest) rn name desc cc current_hit_tmp tbl =
     (case rn trace_path of
        None \<Rightarrow> Inl (CalledProcessError, tbl)
      | Some out \<Rightarrow>
          (case parse_hit_rate out of
             Inl e \<Rightarrow> Inl (e, tbl)
           | Inr tmp \<Rightarrow>
               run_workloads rest rn name desc cc (current_hit_tmp + tmp)
                 (record_row tbl w name desc cc tmp [])))"

text \<open>One pass of \<open>while True\<close>. \<open>Retry\<close> is the \<open>continue\<close> after a failed build,
  \<open>Next\<close> the end of the loop body, \<open>Stop\<close> the \<open>break\<close>; \<open>Raised\<close> carries the
  exception that ends \<open>main\<close> and the state it leaves.\<close>

datatype outcome = Raised exn loop_state | Retry loop_state | Next loop_state
  | Stop loop_state

definition loop_body :: "pass_input \<Rightarrow> loop_state \<Rightarrow> outcome" where
  "loop_body inp st0 =
     (let (prompt, st) = compose st0 in
      case parse_reply (reply inp) of
        Inl e \<Rightarrow> Raised e st
      | Inr (name, desc, code) \<Rightarrow>
          (let base = sanitize name;
               cc = cc_path (iter st) base;
               st = st\<lparr>disk := (disk st)(cc \<mapsto> code)\<rparr>
           in if \<not> build_ok inp then Retry st
              else
                (case run_workloads workloads (runs inp) name desc cc 0 (db st) of
                   Inl (e, tbl) \<Rightarrow> Raised e (st\<lparr>db := tbl\<rparr>)
                 | Inr (current_hit_tmp, tbl) \<Rightarrow>
                     (let cur = current_hit_tmp / of_nat (length workloads);
                          st = st\<lparr>current_hit := cur,
                                  db := record_row tbl ''all'' name desc cc cur [],
                                  iter := iter st + 1\<rparr>
                      in if best_hit st = 0 then Raised ZeroDivisionError st
                         else if current_hit st / best_hit st > 13 / 10 then Stop st
                         else Next (st\<lparr>prev_name := Some name, prev_desc := Some desc,
                                        prev_code := Some code\<rparr>)))))"

text \<open>The loop on a finite sequence of answers of the outside world. The loop has no
  exit of its own but \<open>break\<close> and an exception: when the answers are used up the result
  is \<open>Next\<close> with the state at the head of the loop.\<close>

fun run_loop :: "pass_input list \<Rightarrow> loop_state \<Rightarrow> outcome" where
  "run_loop [] st = Next st"
| "run_loop (inp # inps) st =
     (case loop_body inp st of
        Retry st' \<Rightarrow> run_loop inps st'
      | Next st' \<Rightarrow> run_loop inps st'
      | out \<Rightarrow> out)"

fun state_of :: "outcome \<Rightarrow> loop_state" where
  "state_of (Raised e st) = st"
| "state_of (Retry st) = st"
| "state_of (Next st) = st"
| "state_of (Stop st) = st"

text \<open>Whether a pass runs its candidate on every workload and gets a hit rate from
  every report.\<close>

definition evaluated :: "pass_input \<Rightarrow> bool" where
  "evaluated inp =
     (build_ok inp \<and>
      (case parse_reply (reply inp) of
         Inl e \<Rightarrow> False
       | Inr (name, desc, code) \<Rightarrow>
           list_all (\<lambda>(w, trace_path).
             case runs inp trace_path of
               None \<Rightarrow> False
             | Some out \<Rightarrow> (case parse_hit_rate out of Inl e \<Rightarrow> False | Inr r \<Rightarrow> True))
             workloads))"

text \<open>Answers of the outside world used as examples: a reply in the requested format,
  simulator reports, a pass where every workload reports \<open>hits\<close> out of \<open>accesses\<close>,
  and one where the build fails.\<close>

definition example_reply :: string where
  "example_reply = formatted_reply [] ''My Policy'' ''Keeps hot lines.'' ''int x;'' [NL]"

definition example_pass :: "string \<Rightarrow> pass_input" where
  "example_pass report = \<lparr>reply = example_reply, build_ok = True, runs = (\<lambda>trace. Some report)\<rparr>"

definition mixed_pass :: pass_input where
  "mixed_pass = \<lparr>reply = example_reply, build_ok = True,
     runs = (\<lambda>trace. if trace = ''ChampSim_CRC2/traces/astar_313B.trace.gz''
                     then Some ''LLC TOTAL ACCESS: 2 HIT: 1''
                     else Some ''LLC TOTAL ACCESS: 2 HIT: 0'')\<rparr>"

definition failed_build :: pass_input where
  "failed_build = \<lparr>reply = example_reply, build_ok = False, runs = (\<lambda>trace. None)\<rparr>"

text \<open>The scores recorded under the workload \<open>all\<close>.\<close>

definition all_scores :: "trial list \<Rightarrow> rat list" where
  "all_scores tbl = map score (filter (\<lambda>r. workload r = ''all'') tbl)"

definition mean :: "rat list \<Rightarrow> rat" where
  "mean xs = sum_list xs / of_nat (length xs)"

section \<open>The seeding of DB\_Connection.py\<close>

text \<open>
  The dictionaries \<open>workloads\<close> and \<open>policies\<close> are lists of
  (name, description, trace or file path) in insertion order, \<open>perf_data\<close> a list of
  (workload, hit rates by policy index). \<open>policy_hit_rates\<close> is the
  \<open>defaultdict(list)\<close> the first pair of loops fills.
\<close>

text \<open>Reading \<open>d[k]\<close> in a \<open>defaultdict(list)\<close>: the empty list for a new key.\<close>

definition rates_of :: "(string \<rightharpoonup> rat list) \<Rightarrow> string \<Rightarrow> rat list" where
  "rates_of m k = (case m k of None \<Rightarrow> [] | Some l \<Rightarrow> l)"

fun append_rates ::
  "(string \<rightharpoonup> rat list) \<Rightarrow> rat list \<Rightarrow> nat \<Rightarrow> string list \<Rightarrow> exn + (string \<rightharpoonup> rat list)" where
  "append_rates m row i [] = Inr m"
| "append_rates m row i (policy_name # ps) =
     (if i < length row then
        append_rates
          (m(policy_name \<mapsto> rates_of m policy_name @ [row ! i]))
          row (Suc i) ps
      else Inl IndexError)"

fun policy_hit_rates ::
  "(string \<rightharpoonup> rat list) \<Rightarrow> (string \<times> rat list) list \<Rightarrow> string list \<Rightarrow> string list \<Rightarrow>
   exn + (string \<rightharpoonup> rat list)" where
  "policy_hit_rates m perf [] ps = Inr m"
| "policy_hit_rates m perf (workload_name # ws) ps =
     (case map_of perf workload_name of
        None \<Rightarrow> Inl KeyError
      | Some row \<Rightarrow>
          (case append_rates m row 0 ps of
             Inl e \<Rightarrow> Inl e
           | Inr m' \<Rightarrow> policy_hit_rates m' perf ws ps))"

definition policy_scores :: "(string \<rightharpoonup> rat list) \<Rightarrow> (string \<rightharpoonup> rat)" where
  "policy_scores m = (\<lambda>policy_name.
     case m policy_name of
       None \<Rightarrow> None
     | Some hit_rates \<Rightarrow>
         Some (if hit_rates \<noteq> [] then sum_list hit_rates / of_nat (length hit_rates) else 0))"

fun insert_policies ::
  "trial list \<Rightarrow> (string \<rightharpoonup> rat) \<Rightarrow> string \<Rightarrow> string \<Rightarrow> rat list \<Rightarrow> nat \<Rightarrow>
   (string \<times> string \<times> string) list \<Rightarrow> exn + trial list" where
  "insert_policies tbl sc workload_name workload_desc row i [] = Inr tbl"
| "insert_policies tbl sc workload_name workload_desc row i ((policy_name, policy_desc, cpp_path) # ps) =
     (if i < length row then
        (case sc policy_name of
           None \<Rightarrow> Inl KeyError
         | Some s \<Rightarrow>
             insert_policies
               (tbl @ [\<lparr>workload = workload_name, policy = policy_name,
                        policy_description = policy_desc,
                        workload_description = workload_desc, cpp_file_path = cpp_path,
                        cache_hit_rate = row ! i, score = s\<rparr>])
               sc workload_name workload_desc row (Suc i) ps)
      else Inl IndexError)"

fun insert_workloads ::
  "trial list \<Rightarrow> (string \<rightharpoonup> rat) \<Rightarrow> (string \<times> rat list) list \<Rightarrow>
   (string \<times> string \<times> string) list \<Rightarrow> (string \<times> string \<times> string) list \<Rightarrow> exn + trial list" where
  "insert_workloads tbl sc perf [] pl = Inr tbl"
| "insert_workloads tbl sc perf ((workload_name, workload_desc, trace) # ws) pl =
     (case map_of perf workload_name of
        None \<Rightarrow> Inl KeyError
      | Some row \<Rightarrow>
          (case insert_policies tbl sc workload_name workload_desc row 0 pl of
             Inl e \<Rightarrow> Inl e
           | Inr tbl' \<Rightarrow> insert_workloads tbl' sc perf ws pl))"

fun insert_all ::
  "trial list \<Rightarrow> (string \<rightharpoonup> rat) \<Rightarrow> (string \<times> string \<times> string) list \<Rightarrow> exn + trial list" where
  "insert_all tbl sc [] = Inr tbl"
| "insert_all tbl sc ((policy_name, policy_desc, cpp_path) # ps) =
     (case sc policy_name of
        None \<Rightarrow> Inl KeyError
      | Some s \<Rightarrow>
          insert_all
            (tbl @ [\<lparr>workload = ''all'', policy = policy_name,
                     policy_description = policy_desc, workload_description = [],
                     cpp_file_path = cpp_path, cache_hit_rate = s, score = s\<rparr>])
            sc ps)"

text \<open>The whole script: the table is emptied, then filled.\<close>

definition seed_db ::
  "(string \<times> string \<times> string) list \<Rightarrow> (string \<times> string \<times> string) list \<Rightarrow>
   (string \<times> rat list) list \<Rightarrow> exn + trial list" where
  "seed_db wl pl perf =
     (case policy_hit_rates Map.empty perf (map fst wl) (map fst pl) of
        Inl e \<Rightarrow> Inl e
      | Inr m \<Rightarrow>
          (case insert_workloads [] (policy_scores m) perf wl pl of
             Inl e \<Rightarrow> Inl e
           | Inr tbl \<Rightarrow> insert_all tbl (policy_scores m) pl))"

text \<open>The tables of the script. The descriptions are long free text that no property
  below depends on; they are passed in as \<open>wd\<close> and \<open>pd\<close>.\<close>

definition db_workloads :: "(string \<Rightarrow> string) \<Rightarrow> (string \<times> string \<times> string) list" where
  "db_workloads wd =
     [(''astar'', wd ''astar'', ''ChampSim_CRC2/traces/astar_313B.trace.gz''),
      (''lbm'', wd ''lbm'', ''ChampSim_CRC2/traces/lbm_564B.trace.gz''),
      (''mcf'', wd ''mcf'', ''ChampSim_CRC2/traces/mcf_250B.trace.gz''),
      (''milc'', wd ''milc'', ''ChampSim_CRC2/traces/milc_409B.trace.gz''),
      (''omnetpp'', wd ''omnetpp'', ''ChampSim_CRC2/traces/omnetpp_17B.trace.gz'')]"

definition policies :: "(string \<Rightarrow> string) \<Rightarrow> (string \<times> string \<times> string) list" where
  "policies pd =
     [(''LRU'', pd ''LRU'', ''ChampSim_CRC2/champ_repl_pol/lru.cc''),
      (''Hawkeye'', pd ''Hawkeye'', ''ChampSim_CRC2/champ_repl_pol/hawkeye_final.cc''),
      (''Less is More'', pd ''Less is More'', ''ChampSim_CRC2/champ_repl_pol/lime.cc''),
      (''Multiperspective'', pd ''Multiperspective'', ''ChampSim_CRC2/champ_repl_pol/dancrc2.cc''),
      (''Reordering-based Cache Replacement'', pd ''Reordering-based Cache Replacement'',
         ''ChampSim_CRC2/champ_repl_pol/red.cc''),
      (''Ship++'', pd ''Ship++'', ''ChampSim_CRC2/champ_repl_pol/ship++.cc'')]"

definition perf_data :: "(string \<times> rat list) list" where
  "perf_data =
    [
     (''astar'', [45454223305787467 / 100000000000000000,
        3573547794394494 / 10000000000000000,
        38901773944350737 / 100000000000000000,
        3709567109384967 / 100000000000000000,
        4110201774653078 / 10000000000000000,
        33821173935846005 / 100000000000000000]),
     (''lbm'', [43985783443540666 / 100000000000000000,
        27289983516244354 / 100000000000000000,
        32972240516582263 / 100000000000000000,
        11593643367720617 / 1000000000000000000,
        19358477211349756 / 100000000000000000,
        2615846099982021 / 10000000000000000]),
     (''mcf'', [4074020886631043 / 10000000000000000,
        5087725688923012 / 10000000000000000,
        5230175409101099 / 10000000000000000,
        515161598323247 / 1000000000000000,
        5200312710592792 / 10000000000000000,
        524743749964974 / 1000000000000000]),
     (''milc'', [3219114100958022 / 10000000000000000,
        6456693483565899 / 100000000000000000,
        23460321368313578 / 100000000000000000,
        26430697263517673 / 100000000000000000000,
        14627399581453615 / 100000000000000000,
        54986712238499026 / 1000000000000000000]),
     (''omnetpp'', [4606533811310401 / 10000000000000000,
        6753672808393627 / 10000000000000000,
        6900525496418154 / 10000000000000000,
        8547620325799737 / 1000000000000000000,
        4621028207407054 / 10000000000000000,
        698462878241108 / 1000000000000000])
    ]"


section \<open>Facts about characters\<close>

lemma of_char_lower_char:
  "(of_char (lower_char c) :: nat) =
     (let n = (of_char c :: nat) in
      if (65 \<le> n \<and> n \<le> 90) \<or> (192 \<le> n \<and> n \<le> 214) \<or> (216 \<le> n \<and> n \<le> 222)
      then n + 32 else n)"
  by (auto simp: lower_char_def Let_def)

lemma isalnum_lower_char: "isalnum c \<Longrightarrow> isalnum (lower_char c)"
  unfolding isalnum_def of_char_lower_char Let_def by (auto split: if_splits)

lemma lower_char_idem: "lower_char (lower_char c) = lower_char c"
proof -
  have "(of_char (lower_char (lower_char c)) :: nat) = of_char (lower_char c)"
    unfolding of_char_lower_char [of "lower_char c"] unfolding of_char_lower_char Let_def
    by auto
  then show ?thesis by simp
qed

lemma of_char_underscore: "(of_char (CHR ''_'') :: nat) = 95"
  by simp

lemma lower_char_underscore_iff: "(lower_char c = CHR ''_'') = (c = CHR ''_'')"
proof -
  have "((of_char (lower_char c) :: nat) = of_char (CHR ''_'')) =
        ((of_char c :: nat) = of_char (CHR ''_''))"
    unfolding of_char_lower_char Let_def of_char_underscore by auto
  then show ?thesis by (simp only: of_char_eq_iff)
qed

lemma not_isalnum_underscore: "\<not> isalnum (CHR ''_'')"
  by (simp add: isalnum_def)

lemma ascii_word_charI:
  assumes "97 \<le> (of_char c :: nat) \<and> (of_char c :: nat) \<le> 122 \<or>
           48 \<le> (of_char c :: nat) \<and> (of_char c :: nat) \<le> 57 \<or> (of_char c :: nat) = 95"
  shows "ascii_word_char c"
proof -
  define n where "n = (of_char c :: nat)"
  have c: "c = char_of n" by (simp add: n_def)
  have "set ([97..<123] @ [48..<58] @ [95::nat]) = {97..<123} \<union> {48..<58} \<union> {95}"
    by (simp only: set_append set_upt list.set Un_assoc)
  moreover from assms have "n \<in> {97..<123} \<union> {48..<58} \<union> {95}"
    unfolding n_def by auto
  ultimately have "n \<in> set ([97..<123] @ [48..<58] @ [95])" by (simp only:)
  then have "char_of n \<in> char_of ` set ([97..<123] @ [48..<58] @ [95::nat])"
    by (rule imageI)
  also have "char_of ` set ([97..<123] @ [48..<58] @ [95::nat]) =
             set (map char_of ([97..<123] @ [48..<58] @ [95::nat]))" by simp
  also have "map char_of ([97..<123] @ [48..<58] @ [95::nat]) =
             ''abcdefghijklmnopqrstuvwxyz0123456789_''" by code_simp
  finally show ?thesis using c by (simp add: ascii_word_char_def)
qed

lemma ascii_lower_char:
  assumes "is_ascii c" and "isalnum c"
  shows "ascii_word_char (lower_char c)"
proof (rule ascii_word_charI)
  from assms show "97 \<le> (of_char (lower_char c) :: nat) \<and> (of_char (lower_char c) :: nat) \<le> 122 \<or>
      48 \<le> (of_char (lower_char c) :: nat) \<and> (of_char (lower_char c) :: nat) \<le> 57 \<or>
      (of_char (lower_char c) :: nat) = 95"
    unfolding isalnum_def is_ascii_def of_char_lower_char Let_def by (auto split: if_splits)
qed

lemma ascii_word_underscore: "ascii_word_char (CHR ''_'')"
  by (simp add: ascii_word_char_def)

section \<open>Facts about strip\<close>

lemma dropWhile_hd_id: "xs \<noteq> [] \<Longrightarrow> \<not> p (hd xs) \<Longrightarrow> dropWhile p xs = xs"
  by (cases xs) auto

lemma last_dropWhile_keep: "dropWhile p xs \<noteq> [] \<Longrightarrow> last (dropWhile p xs) = last xs"
  by (induction xs) (auto split: if_splits)

lemma strip_chars_Nil_iff: "strip_chars p s = [] \<longleftrightarrow> (\<forall>c\<in>set s. p c)"
proof
  assume a: "strip_chars p s = []"
  show "\<forall>c\<in>set s. p c"
  proof (rule ccontr)
    assume "\<not> (\<forall>c\<in>set s. p c)"
    then have ne: "dropWhile p s \<noteq> []" by (simp add: dropWhile_eq_Nil_conv)
    then have "\<not> p (hd (dropWhile p s))" by (simp add: hd_dropWhile)
    moreover have "hd (dropWhile p s) \<in> set (rev (dropWhile p s))" using ne by simp
    ultimately have "dropWhile p (rev (dropWhile p s)) \<noteq> []"
      by (auto simp: dropWhile_eq_Nil_conv)
    with a show False by (simp add: strip_chars_def)
  qed
next
  assume "\<forall>c\<in>set s. p c"
  then have "dropWhile p s = []" by (metis dropWhile_eq_Nil_conv)
  then show "strip_chars p s = []"
    by (simp only: strip_chars_def rev.simps dropWhile.simps)
qed

lemma set_strip_chars: "set (strip_chars p s) \<subseteq> set s"
proof -
  have "set (dropWhile p (rev (dropWhile p s))) \<subseteq> set (rev (dropWhile p s))"
    by (rule set_dropWhileD [THEN subsetI])
  also have "\<dots> \<subseteq> set s" by (auto dest: set_dropWhileD)
  finally show ?thesis by (simp add: strip_chars_def)
qed

lemma strip_chars_ends:
  assumes "strip_chars p s \<noteq> []"
  shows "\<not> p (hd (strip_chars p s))" and "\<not> p (last (strip_chars p s))"
proof -
  let ?t = "dropWhile p s"
  let ?u = "dropWhile p (rev ?t)"
  from assms have u: "?u \<noteq> []" by (simp add: strip_chars_def)
  then have t: "?t \<noteq> []" by (cases "dropWhile p s = []") simp_all
  have "last (strip_chars p s) = hd ?u" using u by (simp add: strip_chars_def last_rev)
  with u show "\<not> p (last (strip_chars p s))" by (simp add: hd_dropWhile)
  have "hd (strip_chars p s) = last ?u" using u by (simp add: strip_chars_def hd_rev)
  also have "\<dots> = last (rev ?t)" using u by (rule last_dropWhile_keep)
  also have "\<dots> = hd ?t" using t by (simp add: last_rev)
  finally show "\<not> p (hd (strip_chars p s))" using t by (simp add: hd_dropWhile)
qed

lemma strip_chars_id:
  assumes "s = [] \<or> (\<not> p (hd s) \<and> \<not> p (last s))"
  shows "strip_chars p s = s"
proof (cases s)
  case Nil
  then show ?thesis by (simp add: strip_chars_def)
next
  case (Cons a as)
  with assms have h: "\<not> p (hd s)" and l: "\<not> p (last s)" by auto
  from h Cons have "dropWhile p s = s" by simp
  moreover have "dropWhile p (rev s) = rev s"
  proof (rule dropWhile_hd_id)
    show "rev s \<noteq> []" using Cons by simp
    show "\<not> p (hd (rev s))" using l by (metis hd_rev)
  qed
  ultimately show ?thesis by (simp add: strip_chars_def)
qed

section \<open>sanitize\<close>

lemma replace_lower:
  assumes "isalnum c \<or> c = CHR ''_''"
  shows "(if isalnum (lower_char c) then lower_char c else CHR ''_'') = lower_char c"
  using assms isalnum_lower_char [of c] lower_char_underscore_iff [of c] by auto

lemma sanitize_chars:
  assumes "c \<in> set (sanitize x)"
  shows "\<exists>b. c = lower_char b \<and> ((b \<in> set x \<and> isalnum b) \<or> b = CHR ''_'')"
proof -
  from assms obtain b where b: "c = lower_char b"
    and m: "b \<in> set (strip_chars (\<lambda>c. c = CHR ''_'') (map (\<lambda>c. if isalnum c then c else CHR ''_'') x))"
    by (auto simp: sanitize_def)
  have "set (strip_chars (\<lambda>c. c = CHR ''_'') (map (\<lambda>c. if isalnum c then c else CHR ''_'') x))
      \<subseteq> set (map (\<lambda>c. if isalnum c then c else CHR ''_'') x)"
    by (rule set_strip_chars)
  from this m have "b \<in> set (map (\<lambda>c. if isalnum c then c else CHR ''_'') x)"
    by (rule subsetD)
  then have "(b \<in> set x \<and> isalnum b) \<or> b = CHR ''_''" by auto
  with b show ?thesis by blast
qed

lemma sanitize_ends:
  assumes "sanitize x \<noteq> []"
  shows "hd (sanitize x) \<noteq> CHR ''_''" and "last (sanitize x) \<noteq> CHR ''_''"
proof -
  let ?y = "strip_chars (\<lambda>c. c = CHR ''_'') (map (\<lambda>c. if isalnum c then c else CHR ''_'') x)"
  from assms have ne: "?y \<noteq> []" by (simp add: sanitize_def)
  then have "\<not> hd ?y = CHR ''_''" and "\<not> last ?y = CHR ''_''"
    by (rule strip_chars_ends)+
  with ne show "hd (sanitize x) \<noteq> CHR ''_''" and "last (sanitize x) \<noteq> CHR ''_''"
    by (simp_all add: sanitize_def hd_map last_map lower_char_underscore_iff)
qed

lemma sanitize_idem: "sanitize (sanitize x) = sanitize x"
proof -
  let ?repl = "\<lambda>c. if isalnum c then c else CHR ''_''"
  let ?und = "\<lambda>c. c = CHR ''_''"
  define y where "y = strip_chars ?und (map ?repl x)"
  define z where "z = map lower_char y"
  have z: "sanitize x = z" by (simp add: sanitize_def y_def z_def)
  have ysub: "\<forall>c\<in>set y. isalnum c \<or> c = CHR ''_''"
    using set_strip_chars [of ?und "map ?repl x"] unfolding y_def by auto
  have r: "map ?repl z = z"
    unfolding z_def using ysub by (simp add: replace_lower cong: map_cong)
  have s: "strip_chars ?und z = z"
    by (rule strip_chars_id) (use sanitize_ends [of x] in \<open>auto simp: z\<close>)
  have l: "map lower_char z = z" by (simp add: z_def lower_char_idem)
  show ?thesis unfolding z by (simp add: sanitize_def r s l)
qed

lemma sanitize_Nil_iff: "sanitize x = [] \<longleftrightarrow> (\<forall>c\<in>set x. \<not> isalnum c)"
proof -
  let ?repl = "\<lambda>c. if isalnum c then c else CHR ''_''"
  have "sanitize x = [] \<longleftrightarrow> (\<forall>c\<in>set (map ?repl x). c = CHR ''_'')"
    unfolding sanitize_def map_is_Nil_conv by (rule strip_chars_Nil_iff)
  also have "\<dots> \<longleftrightarrow> (\<forall>c\<in>set x. ?repl c = CHR ''_'')"
    unfolding set_map by (rule ball_simps)
  also have "\<dots> \<longleftrightarrow> (\<forall>c\<in>set x. \<not> isalnum c)"
    using not_isalnum_underscore by (intro ball_cong refl) auto
  finally show ?thesis .
qed

subsection \<open>sanitize on code points\<close>

lemma of_char_less_256: "(of_char c :: nat) < 256"
proof -
  have "(of_char c :: nat) mod 256 = of_char c" by (rule of_char_mod_256)
  then show ?thesis by (metis mod_less_divisor zero_less_numeral)
qed

lemma cp_isalnum_of_char: "cp_isalnum (of_char c) = isalnum c"
  by (simp add: cp_isalnum_def of_char_less_256)

lemma cp_lower_of_char: "cp_lower (of_char c) = [of_char (lower_char c)]"
  by (simp add: cp_lower_def of_char_less_256)

lemma of_char_underscore_iff: "((of_char c :: nat) = 0x5F) = (c = CHR ''_'')"
proof -
  have "((of_char c :: nat) = of_char (CHR ''_'')) = (c = CHR ''_'')" by (rule of_char_eq_iff)
  then show ?thesis by simp
qed

lemma strip_chars_map:
  "strip_chars p (map f xs) = map f (strip_chars (p \<circ> f) xs)"
  by (simp add: strip_chars_def dropWhile_map rev_map)

lemma concat_map_cp_lower:
  "concat (map cp_lower (map of_char ys)) = map of_char (map lower_char ys)"
  by (induction ys) (simp_all add: cp_lower_of_char)

text \<open>On strings of code points below U+0100 the two definitions are the same function.\<close>

lemma sanitize_cp_of_char: "sanitize_cp (map of_char s) = map of_char (sanitize s)"
proof -
  let ?r8 = "\<lambda>c. if isalnum c then c else CHR ''_''"
  let ?r = "\<lambda>c::nat. if cp_isalnum c then c else 0x5F"
  have r: "map ?r (map of_char s) = map of_char (map ?r8 s)"
    by (simp add: cp_isalnum_of_char)
  have p: "(\<lambda>c::nat. c = 0x5F) \<circ> of_char = (\<lambda>c. c = CHR ''_'')"
    by (rule ext) (simp only: comp_apply of_char_underscore_iff)
  have "strip_chars (\<lambda>c::nat. c = 0x5F) (map ?r (map of_char s)) =
        map of_char (strip_chars (\<lambda>c. c = CHR ''_'') (map ?r8 s))"
    unfolding r strip_chars_map p ..
  then have "sanitize_cp (map of_char s) =
      concat (map cp_lower (map of_char (strip_chars (\<lambda>c. c = CHR ''_'') (map ?r8 s))))"
    by (simp only: sanitize_cp_def)
  also have "\<dots> = map of_char (sanitize s)"
    unfolding concat_map_cp_lower by (simp only: sanitize_def)
  finally show ?thesis .
qed

text \<open>A code point of the tables other than U+0130 is below U+0100, or it is U+0307,
  which is not alphanumeric and so is replaced like an underscore.\<close>

lemma sanitize_cp_narrow:
  assumes "\<forall>c\<in>set x. in_tables c \<and> c \<noteq> 0x130"
  shows "sanitize_cp x =
     sanitize_cp (map of_char (map (\<lambda>n. if n < 256 then char_of n else CHR ''_'') x))"
proof -
  let ?r = "\<lambda>c::nat. if cp_isalnum c then c else 0x5F"
  let ?nw = "\<lambda>n::nat. if n < 256 then char_of n else CHR ''_''"
  have "?r c = ?r (of_char (?nw c))" if "c \<in> set x" for c
  proof (cases "c < 256")
    case True
    then show ?thesis by simp
  next
    case False
    with assms that have "c = 0x307" by (auto simp: in_tables_def)
    then show ?thesis by (simp add: cp_isalnum_def isalnum_def)
  qed
  then have "map ?r x = map ?r (map of_char (map ?nw x))" by (simp add: comp_def)
  then show ?thesis by (simp only: sanitize_cp_def)
qed

lemma sanitize_cp_idem:
  assumes "\<forall>c\<in>set x. in_tables c \<and> c \<noteq> 0x130"
  shows "sanitize_cp (sanitize_cp x) = sanitize_cp x"
proof -
  let ?s = "map (\<lambda>n. if n < 256 then char_of n else CHR ''_'') x"
  have a: "sanitize_cp x = map of_char (sanitize ?s)"
    using sanitize_cp_narrow [OF assms] by (simp only: sanitize_cp_of_char)
  show ?thesis unfolding a sanitize_cp_of_char sanitize_idem ..
qed

lemma sanitize_cp_ascii:
  assumes "\<forall>c\<in>set x. c < 128"
  shows "\<forall>c\<in>set (sanitize_cp x). cp_word c"
proof -
  let ?s = "map (\<lambda>n. if n < 256 then char_of n else CHR ''_'') x"
  from assms have t: "\<forall>c\<in>set x. in_tables c \<and> c \<noteq> 0x130" by (auto simp: in_tables_def)
  have a: "sanitize_cp x = map of_char (sanitize ?s)"
    using sanitize_cp_narrow [OF t] by (simp only: sanitize_cp_of_char)
  have "\<forall>c\<in>set ?s. is_ascii c" using assms by (auto simp: is_ascii_def)
  then have "\<forall>c\<in>set (sanitize ?s). ascii_word_char c"
  proof (intro ballI)
    fix c
    assume asc: "\<forall>c\<in>set ?s. is_ascii c" and "c \<in> set (sanitize ?s)"
    then obtain b where b: "c = lower_char b"
      and cases: "(b \<in> set ?s \<and> isalnum b) \<or> b = CHR ''_''"
      using sanitize_chars by blast
    from cases show "ascii_word_char c"
    proof
      assume "b \<in> set ?s \<and> isalnum b"
      with asc b show ?thesis by (simp add: ascii_lower_char)
    next
      assume "b = CHR ''_''"
      with b show ?thesis
        using lower_char_underscore_iff [of b] by (simp add: ascii_word_underscore)
    qed
  qed
  then show ?thesis unfolding a by (auto simp: cp_word_def of_char_less_256)
qed

lemma cp_lower_ends:
  "cp_lower c \<noteq> []" "(hd (cp_lower c) = 0x5F) = (c = 0x5F)" "(last (cp_lower c) = 0x5F) = (c = 0x5F)"
proof -
  show "cp_lower c \<noteq> []" by (simp add: cp_lower_def)
  have low: "((of_char (lower_char (char_of c)) :: nat) = 0x5F) = (c = 0x5F)" if "c < 256"
  proof -
    have "((of_char (lower_char (char_of c)) :: nat) = 0x5F) = (char_of c = CHR ''_'')"
      by (simp only: of_char_underscore_iff lower_char_underscore_iff)
    also have "\<dots> = ((of_char (char_of c :: char) :: nat) = 0x5F)"
      by (simp only: of_char_underscore_iff)
    also have "\<dots> = (c = 0x5F)" using that by simp
    finally show ?thesis .
  qed
  then show "(hd (cp_lower c) = 0x5F) = (c = 0x5F)" "(last (cp_lower c) = 0x5F) = (c = 0x5F)"
    by (auto simp: cp_lower_def)
qed

lemma sanitize_cp_ends:
  assumes "sanitize_cp x \<noteq> []"
  shows "hd (sanitize_cp x) \<noteq> 0x5F" and "last (sanitize_cp x) \<noteq> 0x5F"
proof -
  let ?y = "strip_chars (\<lambda>c::nat. c = 0x5F) (map (\<lambda>c. if cp_isalnum c then c else 0x5F) x)"
  from assms have ne: "?y \<noteq> []" by (auto simp: sanitize_cp_def)
  then have h: "hd ?y \<noteq> 0x5F" and l: "last ?y \<noteq> 0x5F" by (rule strip_chars_ends)+
  from ne obtain a ys where y1: "?y = a # ys" by (cases ?y) auto
  from ne obtain zs b where y2: "?y = zs @ [b]" by (cases ?y rule: rev_cases) auto
  have "hd (sanitize_cp x) = hd (cp_lower (hd ?y))"
    unfolding sanitize_cp_def y1 by (simp add: cp_lower_ends(1))
  moreover have "hd (cp_lower (hd ?y)) \<noteq> 0x5F" using h by (simp add: cp_lower_ends(2))
  ultimately show "hd (sanitize_cp x) \<noteq> 0x5F" by simp
  have "last (sanitize_cp x) = last (cp_lower (last ?y))"
    unfolding sanitize_cp_def y2 by (simp add: cp_lower_ends(1))
  moreover have "last (cp_lower (last ?y)) \<noteq> 0x5F" using l by (simp add: cp_lower_ends(3))
  ultimately show "last (sanitize_cp x) \<noteq> 0x5F" by simp
qed

text \<open>
  C7 (as the specification states it, refuted), on two counts. \<open>sanitize\<close> is not
  idempotent: U+0130 is alphanumeric, \<open>lower\<close> turns it into U+0069 U+0307, and a second
  pass replaces the combining mark U+0307 by an underscore and strips it, leaving
  U+0069. And the output need not match \<open>[a-z0-9_]*\<close>: U+00C9 is alphanumeric and is
  kept, lowered to U+00E9.
\<close>

theorem sanitize_unicode_counterexample:
  "sanitize_cp [0x130] = [0x69, 0x307] \<and>
   sanitize_cp (sanitize_cp [0x130]) = [0x69] \<and>
   sanitize_cp (sanitize_cp [0x130]) \<noteq> sanitize_cp [0x130] \<and>
   sanitize_cp [0xC9] = [0xE9] \<and> \<not> cp_word 0xE9"
  by code_simp

text \<open>
  C7 (amended). On strings of the code points of the tables, the result of \<open>sanitize\<close>
  neither starts nor ends with an underscore; \<open>sanitize\<close> is idempotent on those that
  do not contain U+0130; and on ASCII strings the result matches \<open>[a-z0-9_]*\<close>. On
  code points below U+0100 this is the \<open>sanitize\<close> of the search loop.
\<close>

theorem sanitize_idempotent_ascii_charset:
  "((\<forall>c\<in>set x. in_tables c) \<longrightarrow>
      (sanitize_cp x \<noteq> [] \<longrightarrow> hd (sanitize_cp x) \<noteq> 0x5F \<and> last (sanitize_cp x) \<noteq> 0x5F)) \<and>
   ((\<forall>c\<in>set x. in_tables c \<and> c \<noteq> 0x130) \<longrightarrow> sanitize_cp (sanitize_cp x) = sanitize_cp x) \<and>
   ((\<forall>c\<in>set x. c < 128) \<longrightarrow>
      sanitize_cp (sanitize_cp x) = sanitize_cp x \<and> (\<forall>c\<in>set (sanitize_cp x). cp_word c)) \<and>
   sanitize_cp (map of_char s) = map of_char (sanitize s)"
proof (intro conjI impI)
  assume "sanitize_cp x \<noteq> []"
  then show "hd (sanitize_cp x) \<noteq> 0x5F" and "last (sanitize_cp x) \<noteq> 0x5F"
    by (rule sanitize_cp_ends)+
next
  assume "\<forall>c\<in>set x. in_tables c \<and> c \<noteq> 0x130"
  then show "sanitize_cp (sanitize_cp x) = sanitize_cp x" by (rule sanitize_cp_idem)
next
  assume a: "\<forall>c\<in>set x. c < 128"
  then have "\<forall>c\<in>set x. in_tables c \<and> c \<noteq> 0x130" by (auto simp: in_tables_def)
  then show "sanitize_cp (sanitize_cp x) = sanitize_cp x" by (rule sanitize_cp_idem)
  from a show "\<forall>c\<in>set (sanitize_cp x). cp_word c" by (rule sanitize_cp_ascii)
next
  show "sanitize_cp (map of_char s) = map of_char (sanitize s)" by (rule sanitize_cp_of_char)
qed

theorem sanitize_idempotent_ascii_charset_witness:
  "list_all (\<lambda>c. c < 128) (map of_char ''My-Policy v2!'' :: nat list) \<and>
   sanitize_cp (map of_char ''My-Policy v2!'') = map of_char ''my_policy_v2'' \<and>
   sanitize_cp (sanitize_cp (map of_char ''My-Policy v2!'')) = sanitize_cp (map of_char ''My-Policy v2!'') \<and>
   list_all cp_word (sanitize_cp (map of_char ''My-Policy v2!'')) \<and>
   hd (sanitize_cp (map of_char ''My-Policy v2!'')) \<noteq> 0x5F \<and>
   last (sanitize_cp (map of_char ''My-Policy v2!'')) \<noteq> 0x5F \<and>
   list_all (\<lambda>c. in_tables c \<and> c \<noteq> 0x130) [0xC9, 0x307, 0x41] \<and>
   sanitize_cp [0xC9, 0x307, 0x41] = [0xE9, 0x5F, 0x61] \<and>
   sanitize_cp (sanitize_cp [0xC9, 0x307, 0x41]) = sanitize_cp [0xC9, 0x307, 0x41]"
proof -
  let ?x = "map of_char ''My-Policy v2!'' :: nat list"
  let ?y = "[0xC9, 0x307, 0x41] :: nat list"
  have v: "sanitize_cp ?x = map of_char ''my_policy_v2''" by code_simp
  have v2: "sanitize_cp ?y = [0xE9, 0x5F, 0x61]" by code_simp
  have a: "\<forall>c\<in>set ?x. c < 128" by simp
  then have t: "\<forall>c\<in>set ?x. in_tables c" by (auto simp: in_tables_def)
  have b: "\<forall>c\<in>set ?y. in_tables c \<and> c \<noteq> 0x130" by (simp add: in_tables_def)
  note th = sanitize_idempotent_ascii_charset [of ?x]
  from th [THEN conjunct1, THEN mp, OF t] v
  have e: "hd (sanitize_cp ?x) \<noteq> 0x5F \<and> last (sanitize_cp ?x) \<noteq> 0x5F" by simp
  from th [THEN conjunct2, THEN conjunct2, THEN conjunct1, THEN mp, OF a]
  have i: "sanitize_cp (sanitize_cp ?x) = sanitize_cp ?x"
    and w: "\<forall>c\<in>set (sanitize_cp ?x). cp_word c" by blast+
  from sanitize_idempotent_ascii_charset [of ?y, THEN conjunct2, THEN conjunct1, THEN mp, OF b]
  have i2: "sanitize_cp (sanitize_cp ?y) = sanitize_cp ?y" .
  have la: "list_all (\<lambda>c. c < 128) ?x" using a by (simp only: list_all_iff)
  have lw: "list_all cp_word (sanitize_cp ?x)" using w by (simp only: list_all_iff)
  have lb: "list_all (\<lambda>c. in_tables c \<and> c \<noteq> 0x130) ?y" using b by (simp only: list_all_iff)
  from la v i lw e lb v2 i2 show ?thesis by (intro conjI) blast+
qed

text \<open>
  C8 (as the specification states it, refuted). \<open>sanitize\<close> has no placeholder: a
  non-empty name without an alphanumeric character becomes the empty string.
\<close>

theorem sanitize_empty_counterexample:
  "''!?'' \<noteq> [] \<and> sanitize ''!?'' = []"
  by code_simp

text \<open>
  C8 (amended). The result of \<open>sanitize\<close> is non-empty exactly when the input has an
  alphanumeric character; no placeholder is substituted.
\<close>

theorem sanitize_nonempty_iff:
  "sanitize x \<noteq> [] \<longleftrightarrow> (\<exists>c\<in>set x. isalnum c)"
  using sanitize_Nil_iff [of x] by blast

theorem sanitize_nonempty_iff_witness:
  "sanitize ''_a_'' \<noteq> [] \<and> (\<exists>c\<in>set ''_a_''. isalnum c)"
proof -
  have "isalnum (CHR ''a'')" by (simp add: isalnum_def)
  then have "\<exists>c\<in>set ''_a_''. isalnum c" by simp
  with sanitize_nonempty_iff [of "''_a_''"] show ?thesis by blast
qed


section \<open>The matcher against the language of the pattern\<close>

lemma pushes_Nil: "pushes [] c = c"
  by (cases c) simp_all

lemma pushes_Cons: "pushes (x # u) c = pushes u (push x c)"
  by (cases c) simp_all

lemma pushes_append: "pushes (u @ v) c = pushes v (pushes u c)"
  by (cases c) simp_all

lemma rx_ManyI:
  assumes "rx is v d (pushes u c) gs" and "\<forall>x\<in>set u. cls_ok k x"
  shows "rx (Many k # is) (u @ v) d c gs"
  using assms by auto

lemma rx_Many_step:
  assumes "rx (Many k # is) w d (push x c) gs" and "cls_ok k x"
  shows "rx (Many k # is) (x # w) d c gs"
proof -
  from assms(1) obtain u v where w: "w = u @ v" and u: "\<forall>y\<in>set u. cls_ok k y"
    and r: "rx is v d (pushes u (push x c)) gs" by auto
  have "x # w = (x # u) @ v" by (simp add: w)
  moreover have "\<forall>y\<in>set (x # u). cls_ok k y" using u assms(2) by simp
  moreover have "rx is v d (pushes (x # u) c) gs" using r by (simp add: pushes_Cons)
  ultimately show ?thesis unfolding rx.simps by blast
qed

lemma rx_Few_step:
  assumes "rx (Few k # is) w d (push x c) gs" and "cls_ok k x"
  shows "rx (Few k # is) (x # w) d c gs"
proof -
  from assms(1) obtain u v where w: "w = u @ v" and u: "\<forall>y\<in>set u. cls_ok k y"
    and r: "rx is v d (pushes u (push x c)) gs" by auto
  have "x # w = (x # u) @ v" by (simp add: w)
  moreover have "\<forall>y\<in>set (x # u). cls_ok k y" using u assms(2) by simp
  moreover have "rx is v d (pushes (x # u) c) gs" using r by (simp add: pushes_Cons)
  ultimately show ?thesis unfolding rx.simps by blast
qed

lemma rx_Many_skip: "rx is w d c gs \<Longrightarrow> rx (Many k # is) w d c gs"
  using rx_ManyI [of "is" w d "[]" c gs k] by (simp add: pushes_Nil)

lemma rx_Few_skip: "rx is w d c gs \<Longrightarrow> rx (Few k # is) w d c gs"
proof -
  assume "rx is w d c gs"
  then have "w = [] @ w \<and> (\<forall>x\<in>set []. cls_ok k x) \<and> rx is w d (pushes [] c) gs"
    by (simp add: pushes_Nil)
  then show ?thesis unfolding rx.simps by blast
qed

lemma rx_Many1_step:
  assumes "rx (Many k # is) w d (push x c) gs" and "cls_ok k x"
  shows "rx (Many1 k # is) (x # w) d c gs"
proof -
  from assms(1) obtain u v where w: "w = u @ v" and u: "\<forall>y\<in>set u. cls_ok k y"
    and r: "rx is v d (pushes u (push x c)) gs" by auto
  have "x # w = (x # u) @ v" by (simp add: w)
  moreover have "x # u \<noteq> []" by simp
  moreover have "\<forall>y\<in>set (x # u). cls_ok k y" using u assms(2) by simp
  moreover have "rx is v d (pushes (x # u) c) gs" using r by (simp add: pushes_Cons)
  ultimately show ?thesis unfolding rx.simps by blast
qed

text \<open>What the matcher returns is a match of a prefix of its input.\<close>

lemma bt_sound:
  "bt is s d c = Some gs \<Longrightarrow> \<exists>w r. s = w @ r \<and> rx is w d c gs"
proof (induction "is" s d c arbitrary: gs rule: bt.induct)
  case (1 s d c)
  then show ?case by simp
next
  case (2 k "is" d c)
  then show ?case by simp
next
  case (3 k "is" x xs d c)
  from "3.prems" have ok: "cls_ok k x" and b: "bt is xs d (push x c) = Some gs"
    by (auto split: if_splits)
  from "3.IH" [OF ok b] obtain w r where "xs = w @ r" and "rx is w d (push x c) gs"
    by blast
  with ok have "x # xs = (x # w) @ r \<and> rx (One k # is) (x # w) d c gs" by simp
  then show ?case by blast
next
  case (4 k "is" d c)
  from "4.prems" have "bt is [] d c = Some gs" by simp
  from "4.IH" [OF this] obtain w r where "[] = w @ r" and "rx is w d c gs" by blast
  then have "[] = w @ r \<and> rx (Many k # is) w d c gs" by (simp del: rx.simps add: rx_Many_skip)
  then show ?case by blast
next
  case (5 k "is" x xs d c)
  show ?case
  proof (cases "cls_ok k x \<and> bt (Many k # is) xs d (push x c) \<noteq> None")
    case True
    then have ok: "cls_ok k x" and "bt (Many k # is) xs d (push x c) = Some gs"
      using "5.prems" by (auto split: option.splits)
    from "5.IH"(1) [OF ok this(2)] obtain w r
      where "xs = w @ r" and "rx (Many k # is) w d (push x c) gs" by blast
    with ok have "x # xs = (x # w) @ r \<and> rx (Many k # is) (x # w) d c gs"
      by (simp del: rx.simps add: rx_Many_step)
    then show ?thesis by blast
  next
    case False
    then have b: "bt is (x # xs) d c = Some gs"
      using "5.prems" by (auto split: if_splits option.splits)
    have "\<exists>w r. x # xs = w @ r \<and> rx is w d c gs"
    proof (cases "cls_ok k x")
      case True
      with False have "bt (Many k # is) xs d (push x c) = None" by simp
      from "5.IH"(2) [OF True this b] show ?thesis .
    next
      case False
      from "5.IH"(3) [OF False b] show ?thesis .
    qed
    then obtain w r where "x # xs = w @ r" and "rx is w d c gs" by blast
    then have "x # xs = w @ r \<and> rx (Many k # is) w d c gs" by (simp del: rx.simps add: rx_Many_skip)
    then show ?thesis by blast
  qed
next
  case (6 k "is" d c)
  then show ?case by simp
next
  case (7 k "is" x xs d c)
  from "7.prems" have ok: "cls_ok k x" and b: "bt (Many k # is) xs d (push x c) = Some gs"
    by (auto split: if_splits)
  from "7.IH" [OF ok b] obtain w r
    where "xs = w @ r" and "rx (Many k # is) w d (push x c) gs" by blast
  with ok have "x # xs = (x # w) @ r \<and> rx (Many1 k # is) (x # w) d c gs"
    by (simp del: rx.simps add: rx_Many1_step)
  then show ?case by blast
next
  case (8 k "is" d c)
  from "8.prems" have "bt is [] d c = Some gs" by simp
  from "8.IH" [OF this] obtain w r where "[] = w @ r" and "rx is w d c gs" by blast
  then have "[] = w @ r \<and> rx (Few k # is) w d c gs" by (simp del: rx.simps add: rx_Few_skip)
  then show ?case by blast
next
  case (9 k "is" x xs d c)
  show ?case
  proof (cases "bt is (x # xs) d c")
    case (Some g)
    with "9.prems" have "bt is (x # xs) d c = Some gs" by simp
    from "9.IH"(1) [OF this] obtain w r where "x # xs = w @ r" and "rx is w d c gs"
      by blast
    then have "x # xs = w @ r \<and> rx (Few k # is) w d c gs" by (simp del: rx.simps add: rx_Few_skip)
    then show ?thesis by blast
  next
    case None
    with "9.prems" have ok: "cls_ok k x" and b: "bt (Few k # is) xs d (push x c) = Some gs"
      by (auto split: if_splits)
    from "9.IH"(2) [OF None ok b] obtain w r
      where "xs = w @ r" and "rx (Few k # is) w d (push x c) gs" by blast
    with ok have "x # xs = (x # w) @ r \<and> rx (Few k # is) (x # w) d c gs"
      by (simp del: rx.simps add: rx_Few_step)
    then show ?thesis by blast
  qed
next
  case (10 "is" s d c)
  from "10.prems" have "bt is s d (Some []) = Some gs" by simp
  from "10.IH" [OF this] show ?case by simp
next
  case (11 "is" s d c)
  from "11.prems" have "bt is s (d @ [closed c]) None = Some gs" by simp
  from "11.IH" [OF this] show ?case by simp
qed

text \<open>Where a prefix of the input matches, the matcher finds a match.\<close>

lemma bt_Many_complete:
  assumes "\<forall>x\<in>set u. cls_ok k x" and "bt is s d (pushes u c) \<noteq> None"
  shows "bt (Many k # is) (u @ s) d c \<noteq> None"
  using assms
proof (induction u arbitrary: c)
  case Nil
  then have "bt is s d c \<noteq> None" by (simp add: pushes_Nil)
  then show ?case by (cases s) (auto split: option.splits)
next
  case (Cons x u)
  from Cons.prems have "bt is s d (pushes u (push x c)) \<noteq> None" by (simp add: pushes_Cons)
  with Cons.IH [of "push x c"] Cons.prems(1)
  have "bt (Many k # is) (u @ s) d (push x c) \<noteq> None" by simp
  with Cons.prems(1) show ?case by (auto split: option.splits)
qed

lemma bt_Few_complete:
  assumes "\<forall>x\<in>set u. cls_ok k x" and "bt is s d (pushes u c) \<noteq> None"
  shows "bt (Few k # is) (u @ s) d c \<noteq> None"
  using assms
proof (induction u arbitrary: c)
  case Nil
  then have "bt is s d c \<noteq> None" by (simp add: pushes_Nil)
  then show ?case by (cases s) (auto split: option.splits)
next
  case (Cons x u)
  from Cons.prems have "bt is s d (pushes u (push x c)) \<noteq> None" by (simp add: pushes_Cons)
  with Cons.IH [of "push x c"] Cons.prems(1)
  have "bt (Few k # is) (u @ s) d (push x c) \<noteq> None" by simp
  with Cons.prems(1) show ?case by (auto split: option.splits)
qed

lemma bt_complete:
  "rx is w d c gs \<Longrightarrow> bt is (w @ r) d c \<noteq> None"
proof (induction "is" arbitrary: w d c)
  case Nil
  then show ?case by simp
next
  case (Cons it "is")
  show ?case
  proof (cases it)
    case (One k)
    with Cons.prems obtain x v where "w = x # v" and "cls_ok k x"
      and "rx is v d (push x c) gs" by auto
    with Cons.IH [of v d "push x c"] One show ?thesis by simp
  next
    case (Many k)
    with Cons.prems obtain u v where w: "w = u @ v" and u: "\<forall>x\<in>set u. cls_ok k x"
      and "rx is v d (pushes u c) gs" by auto
    with Cons.IH [of v d "pushes u c"] have "bt is (v @ r) d (pushes u c) \<noteq> None" by simp
    with bt_Many_complete [OF u this] Many w show ?thesis by simp
  next
    case (Many1 k)
    with Cons.prems obtain u v where w: "w = u @ v" and ne: "u \<noteq> []"
      and u: "\<forall>x\<in>set u. cls_ok k x" and rxv: "rx is v d (pushes u c) gs" by auto
    from ne obtain x u' where xu: "u = x # u'" by (cases u) auto
    from Cons.IH [OF rxv] have "bt is (v @ r) d (pushes u' (push x c)) \<noteq> None"
      by (simp add: xu pushes_Cons)
    moreover have "\<forall>y\<in>set u'. cls_ok k y" using u xu by simp
    ultimately have "bt (Many k # is) (u' @ v @ r) d (push x c) \<noteq> None"
      by (rule bt_Many_complete [rotated])
    with u xu w Many1 show ?thesis by simp
  next
    case (Few k)
    with Cons.prems obtain u v where w: "w = u @ v" and u: "\<forall>x\<in>set u. cls_ok k x"
      and "rx is v d (pushes u c) gs" by auto
    with Cons.IH [of v d "pushes u c"] have "bt is (v @ r) d (pushes u c) \<noteq> None" by simp
    with bt_Few_complete [OF u this] Few w show ?thesis by simp
  next
    case GOpen
    with Cons.prems Cons.IH [of w d "Some []"] show ?thesis by simp
  next
    case GClose
    with Cons.prems Cons.IH [of w "d @ [closed c]" None] show ?thesis by simp
  qed
qed

lemma re_search_sound:
  "re_search p t = Some gs \<Longrightarrow> \<exists>pre w post. t = pre @ w @ post \<and> rx p w [] None gs"
proof (induction t)
  case Nil
  then have "bt p [] [] None = Some gs" by simp
  from bt_sound [OF this] obtain w r where "[] = w @ r" and "rx p w [] None gs" by blast
  then have "[] = [] @ w @ r \<and> rx p w [] None gs" by simp
  then show ?case by blast
next
  case (Cons x t)
  show ?case
  proof (cases "bt p (x # t) [] None")
    case None
    with Cons.prems have "re_search p t = Some gs" by simp
    from Cons.IH [OF this] obtain pre w post
      where "t = pre @ w @ post" and "rx p w [] None gs" by blast
    then have "x # t = (x # pre) @ w @ post \<and> rx p w [] None gs" by simp
    then show ?thesis by blast
  next
    case (Some g)
    with Cons.prems have "bt p (x # t) [] None = Some gs" by simp
    from bt_sound [OF this] obtain w r where "x # t = w @ r" and "rx p w [] None gs"
      by blast
    then have "x # t = [] @ w @ r \<and> rx p w [] None gs" by simp
    then show ?thesis by blast
  qed
qed

lemma re_search_complete:
  "rx p w [] None gs \<Longrightarrow> re_search p (pre @ w @ post) \<noteq> None"
proof (induction pre)
  case Nil
  from bt_complete [OF Nil, of post] have "bt p (w @ post) [] None \<noteq> None" .
  then show ?case by (cases "w @ post") (auto split: option.splits)
next
  case (Cons x pre)
  then show ?case by (auto split: option.splits)
qed

lemma re_search_None_iff: "re_search p t = None \<longleftrightarrow> \<not> occurs p t"
proof
  assume n: "re_search p t = None"
  show "\<not> occurs p t"
  proof
    assume "occurs p t"
    then obtain pre w post gs where "t = pre @ w @ post" and "rx p w [] None gs"
      unfolding occurs_def by blast
    with re_search_complete [of p w gs pre post] n show False by simp
  qed
next
  assume o: "\<not> occurs p t"
  show "re_search p t = None"
  proof (cases "re_search p t")
    case None
    then show ?thesis .
  next
    case (Some gs)
    from re_search_sound [OF this] o show ?thesis unfolding occurs_def by blast
  qed
qed

text \<open>\<open>re.search\<close> returns the match at the first position where one starts.\<close>

lemma re_search_skip:
  assumes "\<forall>q. suffix q pre \<and> q \<noteq> [] \<longrightarrow> bt p (q @ s) [] None = None"
  shows "re_search p (pre @ s) = re_search p s"
  using assms
proof (induction pre)
  case Nil
  then show ?case by simp
next
  case (Cons x pre)
  have "suffix (x # pre) (x # pre)" by simp
  with Cons.prems have here: "bt p ((x # pre) @ s) [] None = None" by blast
  have "\<forall>q. suffix q pre \<and> q \<noteq> [] \<longrightarrow> bt p (q @ s) [] None = None"
    using Cons.prems by (auto simp: suffix_Cons)
  from Cons.IH [OF this] here show ?case by simp
qed

lemma re_search_here:
  "bt p s [] None = Some gs \<Longrightarrow> re_search p s = Some gs"
  by (cases s) simp_all

section \<open>Metric extraction\<close>

lemma rx_lit:
  "rx (lit s @ is) w d c gs \<longleftrightarrow> (\<exists>v. w = s @ v \<and> rx is v d (pushes s c) gs)"
proof (induction s arbitrary: w c)
  case Nil
  then show ?case by (simp add: lit_def pushes_Nil)
next
  case (Cons x s)
  have "rx (lit (x # s) @ is) w d c gs \<longleftrightarrow>
        (\<exists>v'. w = x # v' \<and> rx (lit s @ is) v' d (push x c) gs)"
    by (auto simp: lit_def)
  also have "\<dots> \<longleftrightarrow> (\<exists>v' v. w = x # v' \<and> v' = s @ v \<and> rx is v d (pushes s (push x c)) gs)"
    unfolding Cons.IH by blast
  also have "\<dots> \<longleftrightarrow> (\<exists>v. w = (x # s) @ v \<and> rx is v d (pushes (x # s) c) gs)"
    by (auto simp: pushes_Cons)
  finally show ?case .
qed

lemma bt_lit: "bt (lit s @ is) (s @ rest) d c = bt is rest d (pushes s c)"
  by (induction s arbitrary: c) (simp_all add: lit_def pushes_Nil pushes_Cons)

lemma bt_lit_mismatch:
  "\<not> prefix s t \<Longrightarrow> bt (lit s @ is) t d c = None"
proof (induction s arbitrary: t c)
  case Nil
  then show ?case by simp
next
  case (Cons x s)
  then show ?case by (cases t) (auto simp: lit_def)
qed

lemma bt_Many_greedy:
  assumes "\<forall>x\<in>set u. cls_ok k x" and "rest = [] \<or> \<not> cls_ok k (hd rest)"
    and "bt is rest d (pushes u c) = Some g"
  shows "bt (Many k # is) (u @ rest) d c = Some g"
  using assms
proof (induction u arbitrary: c)
  case Nil
  then show ?case by (cases rest) (simp_all add: pushes_Nil)
next
  case (Cons x u)
  from Cons.prems have "bt is rest d (pushes u (push x c)) = Some g" by (simp add: pushes_Cons)
  with Cons.IH [of "push x c"] Cons.prems
  have "bt (Many k # is) (u @ rest) d (push x c) = Some g" by simp
  with Cons.prems(1) show ?case by simp
qed

lemma bt_Many1_greedy:
  assumes "u \<noteq> []" and "\<forall>x\<in>set u. cls_ok k x" and "rest = [] \<or> \<not> cls_ok k (hd rest)"
    and "bt is rest d (pushes u c) = Some g"
  shows "bt (Many1 k # is) (u @ rest) d c = Some g"
proof -
  from assms(1) obtain x u' where u: "u = x # u'" by (cases u) auto
  have "bt (Many k # is) (u' @ rest) d (push x c) = Some g"
  proof (rule bt_Many_greedy)
    show "\<forall>y\<in>set u'. cls_ok k y" using assms(2) u by simp
    show "rest = [] \<or> \<not> cls_ok k (hd rest)" by (rule assms(3))
    show "bt is rest d (pushes u' (push x c)) = Some g"
      using assms(4) u by (simp add: pushes_Cons)
  qed
  with assms(2) u show ?thesis by simp
qed

lemma decimal_not_space: "isdecimal x \<Longrightarrow> \<not> isspace x"
  by (auto simp: isdecimal_def isspace_def Let_def)

lemma rx_lit_None:
  "rx (lit s @ is) w d None gs \<longleftrightarrow> (\<exists>v. w = s @ v \<and> rx is v d None gs)"
  by (simp only: rx_lit pushes.simps)

lemma rx_Many_None:
  "rx (Many k # is) w d None gs \<longleftrightarrow>
     (\<exists>u v. w = u @ v \<and> (\<forall>x\<in>set u. cls_ok k x) \<and> rx is v d None gs)"
  by (simp only: rx.simps pushes.simps)

lemma rx_Many1_None:
  "rx (Many1 k # is) w d None gs \<longleftrightarrow>
     (\<exists>u v. w = u @ v \<and> u \<noteq> [] \<and> (\<forall>x\<in>set u. cls_ok k x) \<and> rx is v d None gs)"
  by (simp only: rx.simps pushes.simps)

lemma rx_Many1_group:
  "rx (GOpen # Many1 k # GClose # is) w d None gs \<longleftrightarrow>
     (\<exists>u v. w = u @ v \<and> u \<noteq> [] \<and> (\<forall>x\<in>set u. cls_ok k x) \<and> rx is v (d @ [u]) None gs)"
  by (simp only: rx.simps pushes.simps closed.simps append_Nil)

lemma llc_pattern_unfold:
  "llc_pattern = lit ''LLC TOTAL'' @ (Many1 Space # (lit ''ACCESS:'' @ (Many1 Space #
     GOpen # Many1 Digit # GClose # Many1 Space # (lit ''HIT:'' @ (Many1 Space #
     GOpen # Many1 Digit # GClose # [])))))"
  by (simp add: llc_pattern_def)

lemma rx_llc_pattern_raw:
  "rx llc_pattern w [] None gs \<longleftrightarrow>
   (\<exists>v1. w = ''LLC TOTAL'' @ v1 \<and>
     (\<exists>ws1 v2. v1 = ws1 @ v2 \<and> ws1 \<noteq> [] \<and> (\<forall>x\<in>set ws1. isspace x) \<and>
       (\<exists>v3. v2 = ''ACCESS:'' @ v3 \<and>
         (\<exists>ws2 v4. v3 = ws2 @ v4 \<and> ws2 \<noteq> [] \<and> (\<forall>x\<in>set ws2. isspace x) \<and>
           (\<exists>a v5. v4 = a @ v5 \<and> a \<noteq> [] \<and> (\<forall>x\<in>set a. isdecimal x) \<and>
             (\<exists>ws3 v6. v5 = ws3 @ v6 \<and> ws3 \<noteq> [] \<and> (\<forall>x\<in>set ws3. isspace x) \<and>
               (\<exists>v7. v6 = ''HIT:'' @ v7 \<and>
                 (\<exists>ws4 v8. v7 = ws4 @ v8 \<and> ws4 \<noteq> [] \<and> (\<forall>x\<in>set ws4. isspace x) \<and>
                   (\<exists>h v9. v8 = h @ v9 \<and> h \<noteq> [] \<and> (\<forall>x\<in>set h. isdecimal x) \<and>
                      v9 = [] \<and> gs = [] @ [a] @ [h]))))))))) "
  unfolding llc_pattern_unfold
  by (simp only: rx_lit_None rx_Many1_None rx_Many1_group rx.simps(1) cls_ok.simps append_assoc)

lemma rx_llc_pattern:
  "rx llc_pattern w [] None gs \<longleftrightarrow> (\<exists>a h. gs = [a, h] \<and> llc_match w a h)"
proof
  assume "rx llc_pattern w [] None gs"
  then obtain v1 ws1 v2 v3 ws2 v4 a v5 ws3 v6 v7 ws4 v8 h v9
    where "w = ''LLC TOTAL'' @ v1" "v1 = ws1 @ v2" "ws1 \<noteq> []" "\<forall>x\<in>set ws1. isspace x"
      "v2 = ''ACCESS:'' @ v3" "v3 = ws2 @ v4" "ws2 \<noteq> []" "\<forall>x\<in>set ws2. isspace x"
      "v4 = a @ v5" "a \<noteq> []" "\<forall>x\<in>set a. isdecimal x"
      "v5 = ws3 @ v6" "ws3 \<noteq> []" "\<forall>x\<in>set ws3. isspace x"
      "v6 = ''HIT:'' @ v7" "v7 = ws4 @ v8" "ws4 \<noteq> []" "\<forall>x\<in>set ws4. isspace x"
      "v8 = h @ v9" "h \<noteq> []" "\<forall>x\<in>set h. isdecimal x" "v9 = []" "gs = [] @ [a] @ [h]"
    unfolding rx_llc_pattern_raw by (elim exE conjE) (rule that, assumption+)
  then have "gs = [a, h]"
    and "w = ''LLC TOTAL'' @ ws1 @ ''ACCESS:'' @ ws2 @ a @ ws3 @ ''HIT:'' @ ws4 @ h"
    and "spaces1 ws1" "spaces1 ws2" "digits1 a" "spaces1 ws3" "spaces1 ws4" "digits1 h"
    by (simp_all add: spaces1_def digits1_def list_all_iff)
  then show "\<exists>a h. gs = [a, h] \<and> llc_match w a h"
    unfolding llc_match_def by blast
next
  assume "\<exists>a h. gs = [a, h] \<and> llc_match w a h"
  then obtain a h ws1 ws2 ws3 ws4 where g: "gs = [a, h]"
    and w: "w = ''LLC TOTAL'' @ ws1 @ ''ACCESS:'' @ ws2 @ a @ ws3 @ ''HIT:'' @ ws4 @ h"
    and s: "spaces1 ws1" "spaces1 ws2" "digits1 a" "spaces1 ws3" "spaces1 ws4" "digits1 h"
    unfolding llc_match_def by blast
  have g': "gs = [] @ [a] @ [h]" using g by simp
  have w': "w = ''LLC TOTAL'' @ ws1 @ ''ACCESS:'' @ ws2 @ a @ ws3 @ ''HIT:'' @ ws4 @ h @ []"
    using w by simp
  from s have f: "ws1 \<noteq> []" "\<forall>x\<in>set ws1. isspace x" "ws2 \<noteq> []" "\<forall>x\<in>set ws2. isspace x"
    "a \<noteq> []" "\<forall>x\<in>set a. isdecimal x" "ws3 \<noteq> []" "\<forall>x\<in>set ws3. isspace x"
    "ws4 \<noteq> []" "\<forall>x\<in>set ws4. isspace x" "h \<noteq> []" "\<forall>x\<in>set h. isdecimal x"
    by (simp_all add: spaces1_def digits1_def list_all_iff)
  show "rx llc_pattern w [] None gs"
    unfolding rx_llc_pattern_raw w' g'
    using f by (intro exI conjI) (rule refl | assumption)+
qed

lemma space_not_decimal: "isspace x \<Longrightarrow> \<not> isdecimal x"
  using decimal_not_space by blast

lemma occurs_llc_pattern:
  "occurs llc_pattern t \<longleftrightarrow> (\<exists>pre w post a h. t = pre @ w @ post \<and> llc_match w a h)"
  unfolding occurs_def rx_llc_pattern by blast

lemma re_search_llc_sound:
  assumes "re_search llc_pattern t = Some gs"
  shows "\<exists>pre w post a h. t = pre @ w @ post \<and> gs = [a, h] \<and> llc_match w a h"
proof -
  from re_search_sound [OF assms] obtain pre w post
    where "t = pre @ w @ post" and "rx llc_pattern w [] None gs" by blast
  then show ?thesis unfolding rx_llc_pattern by blast
qed

text \<open>At the start of a match, the matcher returns the two digit strings, the second one
  as long as the digits go.\<close>

lemma bt_llc_pattern:
  assumes m: "llc_match w a h" and p: "post = [] \<or> \<not> isdecimal (hd post)"
  shows "bt llc_pattern (w @ post) [] None = Some [a, h]"
proof -
  from m obtain ws1 ws2 ws3 ws4
    where w: "w = ''LLC TOTAL'' @ ws1 @ ''ACCESS:'' @ ws2 @ a @ ws3 @ ''HIT:'' @ ws4 @ h"
      and s1: "ws1 \<noteq> []" "\<forall>x\<in>set ws1. cls_ok Space x"
      and s2: "ws2 \<noteq> []" "\<forall>x\<in>set ws2. cls_ok Space x"
      and da: "a \<noteq> []" "\<forall>x\<in>set a. cls_ok Digit x"
      and s3: "ws3 \<noteq> []" "\<forall>x\<in>set ws3. cls_ok Space x"
      and s4: "ws4 \<noteq> []" "\<forall>x\<in>set ws4. cls_ok Space x"
      and dh: "h \<noteq> []" "\<forall>x\<in>set h. cls_ok Digit x"
    unfolding llc_match_def spaces1_def digits1_def list_all_iff cls_ok.simps by blast
  have b9: "bt [GClose] post [a] (pushes h (Some [])) = Some [a, h]" by simp
  have b8: "bt [Many1 Digit, GClose] (h @ post) [a] (Some []) = Some [a, h]"
    using dh(1) dh(2) _ b9
  proof (rule bt_Many1_greedy)
    show "post = [] \<or> \<not> cls_ok Digit (hd post)" using p by simp
  qed
  then have b8': "bt [GOpen, Many1 Digit, GClose] (h @ post) [a] (pushes ws4 None) = Some [a, h]"
    by simp
  have b7: "bt [Many1 Space, GOpen, Many1 Digit, GClose] (ws4 @ h @ post) [a] None = Some [a, h]"
    using s4(1) s4(2) _ b8'
  proof (rule bt_Many1_greedy)
    show "h @ post = [] \<or> \<not> cls_ok Space (hd (h @ post))"
      using dh by (cases h) (auto dest: decimal_not_space)
  qed
  then have b6: "bt (lit ''HIT:'' @ [Many1 Space, GOpen, Many1 Digit, GClose])
      (''HIT:'' @ ws4 @ h @ post) [a] (pushes ws3 None) = Some [a, h]"
    unfolding bt_lit by simp
  have b5: "bt (Many1 Space # (lit ''HIT:'' @ [Many1 Space, GOpen, Many1 Digit, GClose]))
      (ws3 @ ''HIT:'' @ ws4 @ h @ post) [a] None = Some [a, h]"
    using s3(1) s3(2) _ b6
  proof (rule bt_Many1_greedy)
    show "''HIT:'' @ ws4 @ h @ post = [] \<or> \<not> cls_ok Space (hd (''HIT:'' @ ws4 @ h @ post))"
      by (simp add: isspace_def)
  qed
  then have b4': "bt (GClose # Many1 Space # (lit ''HIT:'' @ [Many1 Space, GOpen, Many1 Digit, GClose]))
      (ws3 @ ''HIT:'' @ ws4 @ h @ post) [] (pushes a (Some [])) = Some [a, h]"
    by simp
  have b4: "bt (Many1 Digit # GClose # Many1 Space #
        (lit ''HIT:'' @ [Many1 Space, GOpen, Many1 Digit, GClose]))
      (a @ ws3 @ ''HIT:'' @ ws4 @ h @ post) [] (Some []) = Some [a, h]"
    using da(1) da(2) _ b4'
  proof (rule bt_Many1_greedy)
    show "ws3 @ ''HIT:'' @ ws4 @ h @ post = [] \<or>
        \<not> cls_ok Digit (hd (ws3 @ ''HIT:'' @ ws4 @ h @ post))"
      using s3 by (cases ws3) (auto dest: space_not_decimal)
  qed
  then have b3': "bt (GOpen # Many1 Digit # GClose # Many1 Space #
        (lit ''HIT:'' @ [Many1 Space, GOpen, Many1 Digit, GClose]))
      (a @ ws3 @ ''HIT:'' @ ws4 @ h @ post) [] (pushes ws2 None) = Some [a, h]"
    by simp
  have b3: "bt (Many1 Space # GOpen # Many1 Digit # GClose # Many1 Space #
        (lit ''HIT:'' @ [Many1 Space, GOpen, Many1 Digit, GClose]))
      (ws2 @ a @ ws3 @ ''HIT:'' @ ws4 @ h @ post) [] None = Some [a, h]"
    using s2(1) s2(2) _ b3'
  proof (rule bt_Many1_greedy)
    show "a @ ws3 @ ''HIT:'' @ ws4 @ h @ post = [] \<or>
        \<not> cls_ok Space (hd (a @ ws3 @ ''HIT:'' @ ws4 @ h @ post))"
      using da by (cases a) (auto dest: decimal_not_space)
  qed
  then have b2: "bt (lit ''ACCESS:'' @ (Many1 Space # GOpen # Many1 Digit # GClose # Many1 Space #
        (lit ''HIT:'' @ [Many1 Space, GOpen, Many1 Digit, GClose])))
      (''ACCESS:'' @ ws2 @ a @ ws3 @ ''HIT:'' @ ws4 @ h @ post) [] (pushes ws1 None) = Some [a, h]"
    unfolding bt_lit by simp
  have b1: "bt (Many1 Space # (lit ''ACCESS:'' @ (Many1 Space # GOpen # Many1 Digit # GClose #
        Many1 Space # (lit ''HIT:'' @ [Many1 Space, GOpen, Many1 Digit, GClose]))))
      (ws1 @ ''ACCESS:'' @ ws2 @ a @ ws3 @ ''HIT:'' @ ws4 @ h @ post) [] None = Some [a, h]"
    using s1(1) s1(2) _ b2
  proof (rule bt_Many1_greedy)
    show "''ACCESS:'' @ ws2 @ a @ ws3 @ ''HIT:'' @ ws4 @ h @ post = [] \<or>
        \<not> cls_ok Space (hd (''ACCESS:'' @ ws2 @ a @ ws3 @ ''HIT:'' @ ws4 @ h @ post))"
      by (simp add: isspace_def)
  qed
  have "bt llc_pattern (''LLC TOTAL'' @ ws1 @ ''ACCESS:'' @ ws2 @ a @ ws3 @ ''HIT:'' @ ws4 @ h @ post)
      [] None = Some [a, h]"
    unfolding llc_pattern_unfold bt_lit using b1 by simp
  then show ?thesis by (simp add: w)
qed

lemma re_search_llc_first:
  assumes m: "llc_match w a h" and p: "post = [] \<or> \<not> isdecimal (hd post)"
    and first: "\<forall>q. suffix q pre \<and> q \<noteq> [] \<longrightarrow>
       \<not> (\<exists>w' a' h' r. q @ w @ post = w' @ r \<and> llc_match w' a' h')"
  shows "re_search llc_pattern (pre @ w @ post) = Some [a, h]"
proof -
  have "\<forall>q. suffix q pre \<and> q \<noteq> [] \<longrightarrow> bt llc_pattern (q @ w @ post) [] None = None"
  proof (intro allI impI)
    fix q
    assume q: "suffix q pre \<and> q \<noteq> []"
    show "bt llc_pattern (q @ w @ post) [] None = None"
    proof (cases "bt llc_pattern (q @ w @ post) [] None")
      case None
      then show ?thesis .
    next
      case (Some gs)
      from bt_sound [OF this] obtain w' r
        where "q @ w @ post = w' @ r" and "rx llc_pattern w' [] None gs" by blast
      then have "\<exists>w' a' h' r. q @ w @ post = w' @ r \<and> llc_match w' a' h'"
        unfolding rx_llc_pattern by blast
      with first q show ?thesis by blast
    qed
  qed
  then have "re_search llc_pattern (pre @ w @ post) = re_search llc_pattern (w @ post)"
    by (rule re_search_skip)
  also have "\<dots> = Some [a, h]"
    using bt_llc_pattern [OF m p] by (rule re_search_here)
  finally show ?thesis .
qed

lemma llc_match_starts: "llc_match w a h \<Longrightarrow> \<exists>v. w = CHR ''L'' # v"
  unfolding llc_match_def by auto

lemma no_L_no_match:
  assumes "CHR ''L'' \<notin> set pre"
  shows "\<forall>q. suffix q pre \<and> q \<noteq> [] \<longrightarrow>
       \<not> (\<exists>w' a' h' r. q @ s = w' @ r \<and> llc_match w' a' h')"
proof (intro allI impI notI)
  fix q
  assume q: "suffix q pre \<and> q \<noteq> []"
    and "\<exists>w' a' h' r. q @ s = w' @ r \<and> llc_match w' a' h'"
  then obtain w' a' h' r where e: "q @ s = w' @ r" and "llc_match w' a' h'" by blast
  then obtain v where "w' = CHR ''L'' # v" using llc_match_starts by blast
  with e q have "hd q = CHR ''L''" by (cases q) auto
  moreover have "hd q \<in> set pre" using q by (cases q) (auto dest: set_mono_suffix)
  ultimately show False using assms by simp
qed

lemma parse_hit_rate_error:
  "parse_hit_rate t = Inl e \<Longrightarrow> e = RuntimeError ''LLC TOTAL not found''"
  by (auto simp: parse_hit_rate_def Let_def split: option.splits if_splits)

text \<open>
  C5 (as the specification states it, refuted). The report of the example contains a
  match of the specification's pattern, with groups \<open>100\<close> and \<open>40\<close>, and both
  extraction functions raise on it: their pattern starts with \<open>LLC TOTAL\<close>.
\<close>

theorem metric_spec_pattern_counterexample:
  "re_search spec_pattern ''... ACCESS: 100 HIT: 40 ...'' = Some [''100'', ''40''] \<and>
   parse_hit_rate ''... ACCESS: 100 HIT: 40 ...'' = Inl (RuntimeError ''LLC TOTAL not found'') \<and>
   parse_llc_stats ''... ACCESS: 100 HIT: 40 ...'' =
     Inl (RuntimeError ''LLC TOTAL line not found in ChampSim output'')"
  by code_simp

text \<open>
  C5 (amended). The pattern is \<open>LLC TOTAL\s+ACCESS:\s+(\d+)\s+HIT:\s+(\d+)\<close>.
  \<open>parse_hit_rate\<close> raises, and then \<open>LLC TOTAL not found\<close>, exactly when the report
  has no substring matching it. When it returns, the value is \<open>hits / accesses\<close> if
  \<open>accesses > 0\<close> and \<open>0\<close> otherwise, for the digit strings of a matching substring,
  the same that \<open>parse_llc_stats\<close> returns. The substring is the first one: for a
  report \<open>pre @ w @ post\<close> where \<open>w\<close> matches with all the digits of the hit count and no
  match starts inside \<open>pre\<close>, the result comes from \<open>w\<close>.
\<close>

theorem parse_hit_rate_llc_total:
  "(parse_hit_rate t = Inl e \<longleftrightarrow>
      e = RuntimeError ''LLC TOTAL not found'' \<and>
      \<not> (\<exists>pre w post a h. t = pre @ w @ post \<and> llc_match w a h)) \<and>
   (parse_hit_rate t = Inr r \<longrightarrow>
      (\<exists>pre w post a h. t = pre @ w @ post \<and> llc_match w a h \<and>
         parse_llc_stats t = Inr (int_of_digits a, int_of_digits h) \<and>
         r = (if 0 < int_of_digits a
              then of_nat (int_of_digits h) / of_nat (int_of_digits a) else 0))) \<and>
   (llc_match w a h \<and> (post = [] \<or> \<not> isdecimal (hd post)) \<and>
    (\<forall>q. suffix q pre \<and> q \<noteq> [] \<longrightarrow>
       \<not> (\<exists>w' a' h' r. q @ w @ post = w' @ r \<and> llc_match w' a' h')) \<longrightarrow>
      parse_llc_stats (pre @ w @ post) = Inr (int_of_digits a, int_of_digits h) \<and>
      parse_hit_rate (pre @ w @ post) =
        Inr (if 0 < int_of_digits a
             then of_nat (int_of_digits h) / of_nat (int_of_digits a) else 0))"
proof (intro conjI impI)
  show "parse_hit_rate t = Inl e \<longleftrightarrow>
      e = RuntimeError ''LLC TOTAL not found'' \<and>
      \<not> (\<exists>pre w post a h. t = pre @ w @ post \<and> llc_match w a h)"
  proof (cases "re_search llc_pattern t")
    case None
    then have "\<not> occurs llc_pattern t" by (simp add: re_search_None_iff)
    with None show ?thesis
      unfolding occurs_llc_pattern by (auto simp: parse_hit_rate_def)
  next
    case (Some gs)
    then have "occurs llc_pattern t" using re_search_None_iff [of llc_pattern t] by simp
    with Some show ?thesis
      unfolding occurs_llc_pattern by (auto simp: parse_hit_rate_def Let_def)
  qed
next
  assume r: "parse_hit_rate t = Inr r"
  then obtain gs where gs: "re_search llc_pattern t = Some gs"
    by (cases "re_search llc_pattern t") (auto simp: parse_hit_rate_def)
  from re_search_llc_sound [OF gs] obtain pre w post a h
    where t: "t = pre @ w @ post" and g: "gs = [a, h]" and m: "llc_match w a h" by blast
  from gs g have "parse_llc_stats t = Inr (int_of_digits a, int_of_digits h)"
    by (simp add: parse_llc_stats_def)
  moreover from r gs g have "r = (if 0 < int_of_digits a
      then of_nat (int_of_digits h) / of_nat (int_of_digits a) else 0)"
    by (auto simp: parse_hit_rate_def Let_def split: if_splits)
  ultimately show "\<exists>pre w post a h. t = pre @ w @ post \<and> llc_match w a h \<and>
         parse_llc_stats t = Inr (int_of_digits a, int_of_digits h) \<and>
         r = (if 0 < int_of_digits a
              then of_nat (int_of_digits h) / of_nat (int_of_digits a) else 0)"
    using t m by blast
next
  assume a: "llc_match w a h \<and> (post = [] \<or> \<not> isdecimal (hd post)) \<and>
    (\<forall>q. suffix q pre \<and> q \<noteq> [] \<longrightarrow>
       \<not> (\<exists>w' a' h' r. q @ w @ post = w' @ r \<and> llc_match w' a' h'))"
  then have s: "re_search llc_pattern (pre @ w @ post) = Some [a, h]"
    using re_search_llc_first [of w a h post pre] by blast
  then show "parse_llc_stats (pre @ w @ post) = Inr (int_of_digits a, int_of_digits h)"
    by (simp add: parse_llc_stats_def)
  from s show "parse_hit_rate (pre @ w @ post) =
        Inr (if 0 < int_of_digits a
             then of_nat (int_of_digits h) / of_nat (int_of_digits a) else 0)"
    by (simp add: parse_hit_rate_def Let_def)
qed

theorem parse_hit_rate_llc_total_witness:
  "llc_match ''LLC TOTAL ACCESS: 100 HIT: 40'' ''100'' ''40'' \<and>
   parse_llc_stats (''... '' @ ''LLC TOTAL ACCESS: 100 HIT: 40'' @ '' ...'') = Inr (100, 40) \<and>
   parse_hit_rate (''... '' @ ''LLC TOTAL ACCESS: 100 HIT: 40'' @ '' ...'') = Inr (2 / 5) \<and>
   parse_hit_rate (''... '' @ ''LLC TOTAL ACCESS: 0 HIT: 0'' @ '' ...'') = Inr 0"
proof -
  have sp: "spaces1 '' ''" by (simp add: spaces1_def isspace_def)
  have d100: "digits1 ''100''" and d40: "digits1 ''40''" and d0: "digits1 ''0''"
    by (simp_all add: digits1_def isdecimal_def)
  have "''LLC TOTAL ACCESS: 100 HIT: 40'' =
      ''LLC TOTAL'' @ '' '' @ ''ACCESS:'' @ '' '' @ ''100'' @ '' '' @ ''HIT:'' @ '' '' @ ''40''"
    by simp
  with sp d100 d40 have m1: "llc_match ''LLC TOTAL ACCESS: 100 HIT: 40'' ''100'' ''40''"
    unfolding llc_match_def by blast
  have "''LLC TOTAL ACCESS: 0 HIT: 0'' =
      ''LLC TOTAL'' @ '' '' @ ''ACCESS:'' @ '' '' @ ''0'' @ '' '' @ ''HIT:'' @ '' '' @ ''0''"
    by simp
  with sp d0 have m2: "llc_match ''LLC TOTAL ACCESS: 0 HIT: 0'' ''0'' ''0''"
    unfolding llc_match_def by blast
  have post: "'' ...'' = [] \<or> \<not> isdecimal (hd '' ...'')" by (simp add: isdecimal_def)
  have "CHR ''L'' \<notin> set ''... ''" by simp
  then have first: "\<forall>q. suffix q ''... '' \<and> q \<noteq> [] \<longrightarrow>
       \<not> (\<exists>w' a' h' r. q @ s = w' @ r \<and> llc_match w' a' h')" for s
    by (rule no_L_no_match)
  have i: "int_of_digits ''100'' = 100" "int_of_digits ''40'' = 40" "int_of_digits ''0'' = 0"
    by (simp_all add: int_of_digits_def)
  have h1: "llc_match ''LLC TOTAL ACCESS: 100 HIT: 40'' ''100'' ''40'' \<and>
      ('' ...'' = [] \<or> \<not> isdecimal (hd '' ...'')) \<and>
      (\<forall>q. suffix q ''... '' \<and> q \<noteq> [] \<longrightarrow>
         \<not> (\<exists>w' a' h' r. q @ ''LLC TOTAL ACCESS: 100 HIT: 40'' @ '' ...'' = w' @ r \<and>
            llc_match w' a' h'))"
    using m1 post first by (intro conjI)
  have h2: "llc_match ''LLC TOTAL ACCESS: 0 HIT: 0'' ''0'' ''0'' \<and>
      ('' ...'' = [] \<or> \<not> isdecimal (hd '' ...'')) \<and>
      (\<forall>q. suffix q ''... '' \<and> q \<noteq> [] \<longrightarrow>
         \<not> (\<exists>w' a' h' r. q @ ''LLC TOTAL ACCESS: 0 HIT: 0'' @ '' ...'' = w' @ r \<and>
            llc_match w' a' h'))"
    using m2 post first by (intro conjI)
  note r1 = parse_hit_rate_llc_total
    [of _ _ _ "''LLC TOTAL ACCESS: 100 HIT: 40''" "''100''" "''40''" "'' ...''" "''... ''",
     THEN conjunct2, THEN conjunct2, THEN mp, OF h1]
  note r2 = parse_hit_rate_llc_total
    [of _ _ _ "''LLC TOTAL ACCESS: 0 HIT: 0''" "''0''" "''0''" "'' ...''" "''... ''",
     THEN conjunct2, THEN conjunct2, THEN mp, OF h2]
  from r1 r2 m1 show ?thesis unfolding i by simp
qed

section \<open>Parsing the reply\<close>

lemma nocase_nonletter:
  assumes "(of_char c :: nat) < 65 \<or> (90 < (of_char c :: nat) \<and> (of_char c :: nat) < 97) \<or>
           (122 < (of_char c :: nat) \<and> (of_char c :: nat) < 192)"
  shows "(lower_char x = lower_char c) = (x = c)"
proof -
  have "((of_char (lower_char x) :: nat) = of_char (lower_char c)) = ((of_char x :: nat) = of_char c)"
    using assms unfolding of_char_lower_char Let_def by auto
  then show ?thesis by (simp only: of_char_eq_iff)
qed

lemma nocase_simps:
  "(lower_char x = lower_char (CHR ''#'')) = (x = CHR ''#'')"
  "(lower_char x = lower_char (CHR ''`'')) = (x = CHR ''`'')"
  "(lower_char x = lower_char NL) = (x = NL)"
  "(lower_char x = lower_char (CHR '' '')) = (x = CHR '' '')"
  by (simp_all add: nocase_nonletter)

lemma isspace_simps:
  "isspace NL" "isspace (CHR '' '')" "\<not> isspace (CHR ''#'')" "\<not> isspace (CHR ''`'')"
  by (simp_all add: isspace_def)

lemma bt_lit_i: "bt (lit_i s @ is) (s @ rest) d c = bt is rest d (pushes s c)"
  by (induction s arbitrary: c) (simp_all add: lit_i_def pushes_Nil pushes_Cons)

lemma bt_One_mismatch:
  "s \<noteq> [] \<Longrightarrow> \<not> cls_ok k (hd s) \<Longrightarrow> bt (One k # is) s d c = None"
  by (cases s) simp_all

lemma re_search_skip_chars:
  assumes "\<forall>x\<in>set pre. \<not> cls_ok k x" and "s \<noteq> []"
  shows "re_search (One k # is) (pre @ s) = re_search (One k # is) s"
  using assms(1) by (induction pre) simp_all

text \<open>The lazy group \<open>(.*?)\<close> before a line feed reads up to the first line feed.\<close>

lemma bt_lazy_line:
  assumes "NL \<notin> set u"
  shows "bt [Few AnyChar, GClose, One (NoCase NL)] (u @ NL # rest) d (Some g) = Some (d @ [g @ u])"
  using assms
proof (induction u arbitrary: g)
  case Nil
  then show ?case by (simp add: nocase_simps)
next
  case (Cons x u)
  then have "x \<noteq> NL" and "NL \<notin> set u" by auto
  with Cons.IH [of "g @ [x]"] show ?case by (simp add: nocase_simps)
qed

text \<open>The end of both section patterns, \<open>\s*\n(.*?)\n\<close>, on a line feed followed by
  a line that starts with no white space.\<close>

lemma bt_section_tail:
  assumes "x \<noteq> []" and "\<not> isspace (hd x)" and "NL \<notin> set x"
  shows "bt [Many Space, One (NoCase NL), GOpen, Few AnyChar, GClose, One (NoCase NL)]
           (NL # x @ NL # rest) [] None = Some [x]"
proof -
  from assms(1) obtain y ys where x: "x = y # ys" by (cases x) auto
  with assms(2) have y: "\<not> isspace y" by simp
  then have "y \<noteq> NL" using isspace_simps(1) by blast
  with y have "bt [Many Space, One (NoCase NL), GOpen, Few AnyChar, GClose, One (NoCase NL)]
      (x @ NL # rest) [] None = None"
    by (simp add: x nocase_simps)
  then have "bt [Many Space, One (NoCase NL), GOpen, Few AnyChar, GClose, One (NoCase NL)]
      (NL # x @ NL # rest) [] None =
    bt [Few AnyChar, GClose, One (NoCase NL)] (x @ NL # rest) [] (Some [])"
    by (simp add: nocase_simps isspace_simps)
  also have "\<dots> = Some [x]" using bt_lazy_line [OF assms(3), of rest "[]" "[]"] by simp
  finally show ?thesis .
qed

text \<open>\<open>\s*```\<close> does not match where text without a backquote, ending in a character that
  is not white space, comes first.\<close>

lemma bt_fence_None:
  assumes "u \<noteq> []" and "CHR ''`'' \<notin> set u" and "\<not> isspace (last u)"
  shows "bt (Many Space # lit_i ''```'') (u @ rest) d c = None"
  using assms
proof (induction u arbitrary: c)
  case Nil
  then show ?case by simp
next
  case (Cons x u)
  have x: "x \<noteq> CHR ''`''" using Cons.prems by auto
  then have here: "bt (lit_i ''```'') (x # u @ rest) d c = None"
    by (simp add: lit_i_def nocase_simps)
  show ?case
  proof (cases "u = []")
    case True
    with Cons.prems have "\<not> isspace x" by simp
    with here show ?thesis by simp
  next
    case False
    with Cons.prems have "bt (Many Space # lit_i ''```'') (u @ rest) d (push x c) = None"
      by (intro Cons.IH) auto
    with here show ?thesis by simp
  qed
qed

lemma bt_lazy_code:
  assumes "CHR ''`'' \<notin> set u" and "u = [] \<or> \<not> isspace (last u)"
  shows "bt (Few AnyChar # GClose # Many Space # lit_i ''```'') (u @ NL # ''```'' @ post) d (Some g)
         = Some (d @ [g @ u])"
  using assms
proof (induction u arbitrary: g)
  case Nil
  have "bt (lit_i ''```'') (''```'' @ post) (d @ [g]) None = Some (d @ [g])"
    using bt_lit_i [of "''```''" "[]" post "d @ [g]" None] by simp
  then have "bt (Many Space # lit_i ''```'') ([NL] @ ''```'' @ post) (d @ [g]) None = Some (d @ [g])"
    by (intro bt_Many_greedy) (simp_all add: isspace_simps)
  then show ?case by simp
next
  case (Cons x u)
  then have l: "\<not> isspace (last (x # u))" and nb: "CHR ''`'' \<notin> set (x # u)" by auto
  have "bt (Many Space # lit_i ''```'') ((x # u) @ NL # ''```'' @ post) (d @ [g]) None = None"
    by (rule bt_fence_None) (use l nb in simp_all)
  then have stop: "bt (GClose # Many Space # lit_i ''```'') (x # u @ NL # ''```'' @ post) d (Some g) = None"
    by simp
  have "u = [] \<or> \<not> isspace (last u)" using l by (cases u) auto
  with Cons.IH [of "g @ [x]"] nb
  have "bt (Few AnyChar # GClose # Many Space # lit_i ''```'') (u @ NL # ''```'' @ post) d (Some (g @ [x]))
        = Some (d @ [g @ x # u])" by simp
  with stop show ?case by simp
qed

lemma bt_code_pattern:
  assumes "code_block x"
  shows "bt code_pattern (''```cpp'' @ NL # x @ NL # ''```'' @ post) [] None = Some [x]"
proof -
  from assms have ne: "x \<noteq> []" and h: "\<not> isspace (hd x)" and l: "\<not> isspace (last x)"
    and nb: "CHR ''`'' \<notin> set x" by (simp_all add: code_block_def)
  have lazy: "bt (Few AnyChar # GClose # Many Space # lit_i ''```'') (x @ NL # ''```'' @ post) [] (Some [])
      = Some [x]"
    using bt_lazy_code [OF nb, of post "[]" "[]"] l by simp
  have "bt (Many Space # GOpen # Few AnyChar # GClose # Many Space # lit_i ''```'')
      ([NL] @ x @ NL # ''```'' @ post) [] None = Some [x]"
  proof (rule bt_Many_greedy)
    show "\<forall>y\<in>set [NL]. cls_ok Space y" by (simp add: isspace_simps)
    show "x @ NL # ''```'' @ post = [] \<or> \<not> cls_ok Space (hd (x @ NL # ''```'' @ post))"
      using ne h by simp
    show "bt (GOpen # Few AnyChar # GClose # Many Space # lit_i ''```'')
        (x @ NL # ''```'' @ post) [] (pushes [NL] None) = Some [x]"
      using lazy by simp
  qed
  then have "bt (lit_i ''```cpp'' @ Many Space # GOpen # Few AnyChar # GClose # Many Space # lit_i ''```'')
      (''```cpp'' @ [NL] @ x @ NL # ''```'' @ post) [] None = Some [x]"
    unfolding bt_lit_i by simp
  then show ?thesis by (simp add: code_pattern_def)
qed

lemma case_option_same: "(case x of None \<Rightarrow> None | Some r \<Rightarrow> Some r) = x"
  by (cases x) simp_all

lemma lower_tab:
  "lower_char (CHR ''#'') = CHR ''#''" "lower_char (CHR '' '') = CHR '' ''"
  "lower_char (CHR ''P'') = CHR ''p''" "lower_char (CHR ''o'') = CHR ''o''"
  "lower_char (CHR ''l'') = CHR ''l''" "lower_char (CHR ''i'') = CHR ''i''"
  "lower_char (CHR ''c'') = CHR ''c''" "lower_char (CHR ''y'') = CHR ''y''"
  "lower_char (CHR ''N'') = CHR ''n''" "lower_char (CHR ''a'') = CHR ''a''"
  "lower_char (CHR ''m'') = CHR ''m''" "lower_char (CHR ''e'') = CHR ''e''"
  "lower_char (CHR ''D'') = CHR ''d''" "lower_char (CHR ''s'') = CHR ''s''"
  "lower_char (CHR ''r'') = CHR ''r''" "lower_char (CHR ''p'') = CHR ''p''"
  "lower_char (CHR ''t'') = CHR ''t''" "lower_char (CHR ''n'') = CHR ''n''"
  by code_simp+

lemma name_head:
  "bt name_pattern (''## Policy Name'' @ rest) [] None =
   bt [Many Space, One (NoCase NL), GOpen, Few AnyChar, GClose, One (NoCase NL)] rest [] None"
  by (simp add: name_pattern_def lit_i_def lower_tab isspace_def case_option_same cong: option.case_cong)

lemma desc_head:
  "bt desc_pattern (''## Policy Description'' @ rest) [] None =
   bt [Many Space, One (NoCase NL), GOpen, Few AnyChar, GClose, One (NoCase NL)] rest [] None"
  by (simp add: desc_pattern_def lit_i_def lower_tab isspace_def case_option_same cong: option.case_cong)

lemma desc_at_name_head:
  "bt desc_pattern (''## Policy Name'' @ rest) [] None = None"
  "bt desc_pattern (''# Policy Name'' @ rest) [] None = None"
  by (simp_all add: desc_pattern_def lit_i_def lower_tab isspace_def case_option_same cong: option.case_cong)

lemma strip_plain: "x \<noteq> [] \<Longrightarrow> \<not> isspace (hd x) \<Longrightarrow> \<not> isspace (last x) \<Longrightarrow> strip x = x"
  unfolding strip_def by (rule strip_chars_id) simp

lemma extract_name_formatted:
  assumes "no_marker pre" and "plain_line n"
  shows "extract_re name_pattern (pre @ ''## Policy Name'' @ [NL] @ n @ NL # rest) = Some n"
proof -
  from assms(2) have n: "n \<noteq> []" "\<not> isspace (hd n)" "\<not> isspace (last n)" "NL \<notin> set n"
    by (simp_all add: plain_line_def)
  have np: "name_pattern = One (NoCase (CHR ''#'')) # tl name_pattern"
    by (simp add: name_pattern_def lit_i_def)
  have "bt name_pattern (''## Policy Name'' @ NL # n @ NL # rest) [] None = Some [n]"
    unfolding name_head using n by (intro bt_section_tail)
  then have here: "re_search name_pattern (''## Policy Name'' @ NL # n @ NL # rest) = Some [n]"
    by (rule re_search_here)
  have "\<forall>x\<in>set pre. \<not> cls_ok (NoCase (CHR ''#'')) x"
    using assms(1) by (auto simp: no_marker_def nocase_simps)
  then have "re_search (One (NoCase (CHR ''#'')) # tl name_pattern)
        (pre @ ''## Policy Name'' @ NL # n @ NL # rest) =
      re_search (One (NoCase (CHR ''#'')) # tl name_pattern) (''## Policy Name'' @ NL # n @ NL # rest)"
    by (rule re_search_skip_chars) simp
  with here np have "re_search name_pattern (pre @ ''## Policy Name'' @ NL # n @ NL # rest) = Some [n]"
    by simp
  then show ?thesis using n by (simp add: extract_re_def strip_plain)
qed

lemma extract_desc_formatted:
  assumes "no_marker pre" and "plain_line n" and "plain_line x"
  shows "extract_re desc_pattern
      (pre @ ''## Policy Name'' @ [NL] @ n @ [NL, NL] @ ''## Policy Description'' @ [NL] @ x @ NL # rest)
    = Some x"
proof -
  from assms(3) have x: "x \<noteq> []" "\<not> isspace (hd x)" "\<not> isspace (last x)" "NL \<notin> set x"
    by (simp_all add: plain_line_def)
  let ?k = "NoCase (CHR ''#'')"
  let ?p = "One ?k # tl desc_pattern"
  let ?s3 = "''## Policy Description'' @ NL # x @ NL # rest"
  let ?mid = "'' Policy Name'' @ [NL] @ n @ [NL, NL]"
  have dp: "desc_pattern = ?p" by (simp add: desc_pattern_def lit_i_def)
  have "bt desc_pattern ?s3 [] None = Some [x]"
    unfolding desc_head using x by (intro bt_section_tail)
  then have s3: "re_search desc_pattern ?s3 = Some [x]" by (rule re_search_here)
  have "\<forall>y\<in>set ?mid. \<not> cls_ok ?k y"
    using assms(2) by (auto simp: plain_line_def nocase_simps)
  then have "re_search ?p (?mid @ ?s3) = re_search ?p ?s3"
    by (rule re_search_skip_chars) simp
  with s3 dp have mid: "re_search desc_pattern (?mid @ ?s3) = Some [x]" by simp
  have "re_search desc_pattern (''## Policy Name'' @ [NL] @ n @ [NL, NL] @ ?s3) =
        re_search desc_pattern (?mid @ ?s3)"
    using desc_at_name_head [of "[NL] @ n @ [NL, NL] @ ?s3"] by simp
  with mid have s1: "re_search desc_pattern (''## Policy Name'' @ [NL] @ n @ [NL, NL] @ ?s3) = Some [x]"
    by simp
  have "\<forall>y\<in>set pre. \<not> cls_ok ?k y"
    using assms(1) by (auto simp: no_marker_def nocase_simps)
  then have "re_search ?p (pre @ ''## Policy Name'' @ [NL] @ n @ [NL, NL] @ ?s3) =
      re_search ?p (''## Policy Name'' @ [NL] @ n @ [NL, NL] @ ?s3)"
    by (rule re_search_skip_chars) simp
  with s1 dp have "re_search desc_pattern (pre @ ''## Policy Name'' @ [NL] @ n @ [NL, NL] @ ?s3)
      = Some [x]" by simp
  then have "extract_re desc_pattern (pre @ ''## Policy Name'' @ [NL] @ n @ [NL, NL] @ ?s3) = Some x"
    using x by (simp add: extract_re_def strip_plain)
  then show ?thesis by simp
qed

lemma extract_code_formatted:
  assumes "no_marker pre" and "plain_line n" and "plain_line x" and "code_block y"
  shows "extract_re code_pattern (formatted_reply pre n x y post) = Some y"
proof -
  from assms(4) have y: "y \<noteq> []" "\<not> isspace (hd y)" "\<not> isspace (last y)"
    by (simp_all add: code_block_def)
  let ?k = "NoCase (CHR ''`'')"
  let ?p = "One ?k # tl code_pattern"
  let ?front = "pre @ ''## Policy Name'' @ [NL] @ n @ [NL, NL] @
     ''## Policy Description'' @ [NL] @ x @ [NL, NL] @ ''## C++ Implementation'' @ [NL]"
  let ?s = "''```cpp'' @ NL # y @ NL # ''```'' @ post"
  have cp: "code_pattern = ?p" by (simp add: code_pattern_def lit_i_def)
  have f: "formatted_reply pre n x y post = ?front @ ?s" by (simp add: formatted_reply_def)
  have "bt code_pattern ?s [] None = Some [y]" using assms(4) by (rule bt_code_pattern)
  then have s: "re_search code_pattern ?s = Some [y]" by (rule re_search_here)
  have "\<forall>z\<in>set ?front. \<not> cls_ok ?k z"
    using assms(1,2,3) by (auto simp: no_marker_def plain_line_def nocase_simps)
  then have "re_search ?p (?front @ ?s) = re_search ?p ?s"
    by (rule re_search_skip_chars) simp
  with s cp f have "re_search code_pattern (formatted_reply pre n x y post) = Some [y]" by simp
  then show ?thesis using y by (simp add: extract_re_def strip_plain)
qed

lemma parse_formatted:
  assumes "no_marker pre" and "plain_line n" and "plain_line x" and "code_block y"
  shows "parse_policy_content (formatted_reply pre n x y post) = (Some n, Some x, Some y)"
proof -
  have "extract_re name_pattern (formatted_reply pre n x y post) = Some n"
    using extract_name_formatted [OF assms(1,2)] by (simp add: formatted_reply_def)
  moreover have "extract_re desc_pattern (formatted_reply pre n x y post) = Some x"
    using extract_desc_formatted [OF assms(1,2,3)] by (simp add: formatted_reply_def)
  moreover have "extract_re code_pattern (formatted_reply pre n x y post) = Some y"
    using assms by (rule extract_code_formatted)
  ultimately show ?thesis by (simp add: parse_policy_content_def)
qed

lemma extract_re_None: "\<not> occurs p t \<Longrightarrow> extract_re p t = None"
  by (simp add: extract_re_def re_search_None_iff [symmetric])

text \<open>
  C6. \<open>main\<close> raises \<open>Parse failed\<close> whenever the reply has no match of one of the
  three patterns, and whenever it raises that is the error; when it goes on, the name,
  the description and the source are all non-empty and are the three components that
  \<open>parse_policy_content\<close> found; and a reply in the output format of the prompt, with
  a plain name line, a plain description line and a code block, is accepted with exactly
  these three.
\<close>

theorem parse_reply_all_or_error:
  "(\<not> occurs name_pattern t \<or> \<not> occurs desc_pattern t \<or> \<not> occurs code_pattern t \<longrightarrow>
      parse_reply t = Inl (RuntimeError ''Parse failed'')) \<and>
   (parse_reply t = Inl e \<longrightarrow> e = RuntimeError ''Parse failed'') \<and>
   (parse_reply t = Inr (n, d, c) \<longrightarrow>
      n \<noteq> [] \<and> d \<noteq> [] \<and> c \<noteq> [] \<and> parse_policy_content t = (Some n, Some d, Some c)) \<and>
   (no_marker pre \<and> plain_line n' \<and> plain_line d' \<and> code_block c' \<longrightarrow>
      parse_reply (formatted_reply pre n' d' c' post) = Inr (n', d', c'))"
proof (intro conjI impI)
  assume "\<not> occurs name_pattern t \<or> \<not> occurs desc_pattern t \<or> \<not> occurs code_pattern t"
  then have "extract_re name_pattern t = None \<or> extract_re desc_pattern t = None \<or>
      extract_re code_pattern t = None"
    by (auto dest: extract_re_None)
  then show "parse_reply t = Inl (RuntimeError ''Parse failed'')"
    by (auto simp: parse_reply_def parse_policy_content_def)
next
  assume "parse_reply t = Inl e"
  then show "e = RuntimeError ''Parse failed''"
    by (auto simp: parse_reply_def split: prod.splits if_splits)
next
  assume a: "parse_reply t = Inr (n, d, c)"
  obtain x y z where p: "parse_policy_content t = (x, y, z)" by (cases "parse_policy_content t")
  with a have tr: "truthy x" "truthy y" "truthy z" and e: "n = the x" "d = the y" "c = the z"
    by (auto simp: parse_reply_def split: if_splits)
  from tr e obtain "x = Some n" "n \<noteq> []" by (cases x) auto
  moreover from tr e obtain "y = Some d" "d \<noteq> []" by (cases y) auto
  moreover from tr e obtain "z = Some c" "c \<noteq> []" by (cases z) auto
  ultimately show "n \<noteq> []" "d \<noteq> []" "c \<noteq> []"
    "parse_policy_content t = (Some n, Some d, Some c)" using p by simp_all
next
  assume "no_marker pre \<and> plain_line n' \<and> plain_line d' \<and> code_block c'"
  then have w: "no_marker pre" "plain_line n'" "plain_line d'" "code_block c'" by simp_all
  from parse_formatted [OF w] w(2,3,4)
  show "parse_reply (formatted_reply pre n' d' c' post) = Inr (n', d', c')"
    by (simp add: parse_reply_def plain_line_def code_block_def)
qed

theorem parse_reply_all_or_error_witness:
  "parse_reply (formatted_reply ''Ideas: A, B. '' ''My Policy'' ''Keeps hot lines.'' ''int x;'' [NL])
     = Inr (''My Policy'', ''Keeps hot lines.'', ''int x;'') \<and>
   re_search desc_pattern (''## Policy Name'' @ [NL] @ ''P'' @ [NL] @ ''```cpp int x; ```'') = None \<and>
   parse_reply (''## Policy Name'' @ [NL] @ ''P'' @ [NL] @ ''```cpp int x; ```'')
     = Inl (RuntimeError ''Parse failed'')"
proof -
  have w: "no_marker ''Ideas: A, B. '' \<and> plain_line ''My Policy'' \<and> plain_line ''Keeps hot lines.'' \<and>
      code_block ''int x;''"
    by (simp add: no_marker_def plain_line_def code_block_def isspace_def)
  have n: "re_search desc_pattern (''## Policy Name'' @ [NL] @ ''P'' @ [NL] @ ''```cpp int x; ```'') = None"
    by code_simp
  have o: "\<not> occurs desc_pattern (''## Policy Name'' @ [NL] @ ''P'' @ [NL] @ ''```cpp int x; ```'')"
    by (rule re_search_None_iff [THEN iffD1, OF n])
  note t1 = parse_reply_all_or_error
    [of "''## Policy Name'' @ [NL] @ ''P'' @ [NL] @ ''```cpp int x; ```''" _ _ _ _
        "''Ideas: A, B. ''" "''My Policy''" "''Keeps hot lines.''" "''int x;''" "[NL]"]
  let ?t = "''## Policy Name'' @ [NL] @ ''P'' @ [NL] @ ''```cpp int x; ```''"
  have o': "\<not> occurs name_pattern ?t \<or> \<not> occurs desc_pattern ?t \<or>
      \<not> occurs code_pattern ?t"
    by (rule disjI2, rule disjI1) (rule o)
  note r1 = t1 [THEN conjunct1, THEN mp, OF o']
  note r2 = t1 [THEN conjunct2, THEN conjunct2, THEN conjunct2, THEN mp, OF w]
  from r1 r2 n show ?thesis by (intro conjI)
qed

section \<open>One pass of the loop\<close>

lemma compose_fields:
  "iter (snd (compose st)) = iter st"
  "current_hit (snd (compose st)) = current_hit st"
  "prev_name (snd (compose st)) = prev_name st"
  "prev_desc (snd (compose st)) = prev_desc st"
  "prev_code (snd (compose st)) = prev_code st"
  "db (snd (compose st)) = db st"
  "disk (snd (compose st)) = disk st"
  by (simp_all add: compose_def)

lemma compose_best:
  "best_hit (snd (compose st)) =
     (if iter st \<noteq> 0 \<and> current_hit st > best_hit st then current_hit st else best_hit st)"
  by (simp add: compose_def)

lemma compose_idem: "snd (compose (snd (compose st))) = snd (compose st)"
  by (simp add: compose_def)

text \<open>The pass, case by case.\<close>

lemma loop_body_parse_error:
  "parse_reply (reply inp) = Inl e \<Longrightarrow> loop_body inp st = Raised e (snd (compose st))"
  by (simp add: loop_body_def split: prod.splits)

lemma loop_body_build_failed:
  assumes "parse_reply (reply inp) = Inr (name, desc, code)" and "\<not> build_ok inp"
  shows "loop_body inp st =
     Retry ((snd (compose st))\<lparr>disk := (disk st)(cc_path (iter st) (sanitize name) \<mapsto> code)\<rparr>)"
proof -
  obtain pr st1 where c: "compose st = (pr, st1)" by (cases "compose st")
  then have "st1 = snd (compose st)" by simp
  with compose_fields [of st] have "iter st1 = iter st" "disk st1 = disk st" by simp_all
  with assms c show ?thesis by (simp add: loop_body_def Let_def)
qed

lemma loop_body_run_error:
  assumes "parse_reply (reply inp) = Inr (name, desc, code)" and "build_ok inp"
    and "run_workloads workloads (runs inp) name desc (cc_path (iter st) (sanitize name)) 0 (db st)
         = Inl (e, tbl)"
  shows "loop_body inp st =
     Raised e ((snd (compose st))\<lparr>disk := (disk st)(cc_path (iter st) (sanitize name) \<mapsto> code),
                                 db := tbl\<rparr>)"
proof -
  obtain pr st1 where c: "compose st = (pr, st1)" by (cases "compose st")
  then have "st1 = snd (compose st)" by simp
  with compose_fields [of st] have "iter st1 = iter st" "disk st1 = disk st" "db st1 = db st"
    by simp_all
  with assms c show ?thesis by (simp add: loop_body_def Let_def)
qed

lemma loop_body_evaluated:
  assumes "parse_reply (reply inp) = Inr (name, desc, code)" and "build_ok inp"
    and "run_workloads workloads (runs inp) name desc (cc_path (iter st) (sanitize name)) 0 (db st)
         = Inr (tmp, tbl)"
  shows "loop_body inp st =
     (let cc = cc_path (iter st) (sanitize name);
          cur = tmp / of_nat (length workloads);
          st3 = (snd (compose st))\<lparr>disk := (disk st)(cc \<mapsto> code), current_hit := cur,
                  db := record_row tbl ''all'' name desc cc cur [], iter := iter st + 1\<rparr>
      in if best_hit (snd (compose st)) = 0 then Raised ZeroDivisionError st3
         else if cur / best_hit (snd (compose st)) > 13 / 10 then Stop st3
         else Next (st3\<lparr>prev_name := Some name, prev_desc := Some desc, prev_code := Some code\<rparr>))"
proof -
  obtain pr st1 where c: "compose st = (pr, st1)" by (cases "compose st")
  then have "st1 = snd (compose st)" by simp
  with compose_fields [of st] have "iter st1 = iter st" "disk st1 = disk st" "db st1 = db st"
    by simp_all
  with assms c show ?thesis by (simp add: loop_body_def Let_def)
qed

text \<open>Every pass is one of the four cases.\<close>

lemma loop_body_cases:
  obtains (parse_error) e where "parse_reply (reply inp) = Inl e"
  | (build_failed) name desc code
      where "parse_reply (reply inp) = Inr (name, desc, code)" and "\<not> build_ok inp"
  | (run_error) name desc code e tbl
      where "parse_reply (reply inp) = Inr (name, desc, code)" and "build_ok inp"
        and "run_workloads workloads (runs inp) name desc (cc_path (iter st) (sanitize name)) 0 (db st)
             = Inl (e, tbl)"
  | (evaluated) name desc code tmp tbl
      where "parse_reply (reply inp) = Inr (name, desc, code)" and "build_ok inp"
        and "run_workloads workloads (runs inp) name desc (cc_path (iter st) (sanitize name)) 0 (db st)
             = Inr (tmp, tbl)"
proof (cases "parse_reply (reply inp)")
  case (Inl e)
  then show ?thesis by (rule parse_error)
next
  case (Inr t)
  obtain name desc code where t: "t = (name, desc, code)" by (cases t)
  show ?thesis
  proof (cases "build_ok inp")
    case False
    with Inr t show ?thesis by (intro build_failed) simp_all
  next
    case True
    show ?thesis
    proof (cases "run_workloads workloads (runs inp) name desc
        (cc_path (iter st) (sanitize name)) 0 (db st)")
      case (Inl a)
      obtain e tbl where "a = (e, tbl)" by (cases a)
      with Inl Inr t True show ?thesis by (intro run_error) simp_all
    next
      case (Inr b)
      obtain tmp tbl where "b = (tmp, tbl)" by (cases b)
      with Inr \<open>parse_reply (reply inp) = Inr t\<close> t True show ?thesis
        by (intro evaluated) simp_all
    qed
  qed
qed

text \<open>The loop over the workloads: what it appends, and what it adds up.\<close>

lemma run_workloads_rows:
  assumes "run_workloads ws rn name desc cc acc tbl = Inr (tmp, tbl')"
  shows "\<exists>rows. tbl' = tbl @ rows \<and> map workload rows = map fst ws \<and>
           tmp = acc + sum_list (map cache_hit_rate rows) \<and>
           (\<forall>r\<in>set rows. policy r = name \<and> policy_description r = desc \<and>
               cpp_file_path r = cc \<and> score r = cache_hit_rate r)"
  using assms
proof (induction ws arbitrary: acc tbl)
  case Nil
  then show ?case by simp
next
  case (Cons a ws)
  obtain w trace_path where a: "a = (w, trace_path)" by (cases a)
  from Cons.prems a obtain out t where o: "rn trace_path = Some out"
    and p: "parse_hit_rate out = Inr t"
    and rest: "run_workloads ws rn name desc cc (acc + t) (record_row tbl w name desc cc t [])
               = Inr (tmp, tbl')"
    by (auto split: option.splits sum.splits)
  from Cons.IH [OF rest] obtain rows
    where r: "tbl' = record_row tbl w name desc cc t [] @ rows"
      and "map workload rows = map fst ws"
      and "tmp = acc + t + sum_list (map cache_hit_rate rows)"
      and "\<forall>r\<in>set rows. policy r = name \<and> policy_description r = desc \<and>
               cpp_file_path r = cc \<and> score r = cache_hit_rate r"
    by blast
  then show ?case
    by (intro exI [of _ "\<lparr>workload = w, policy = name, policy_description = desc,
            workload_description = [], cpp_file_path = cc,
            cache_hit_rate = t, score = t\<rparr> # rows"])
       (simp add: record_row_def a)
qed

lemma run_workloads_error_rows:
  assumes "run_workloads ws rn name desc cc acc tbl = Inl (e, tbl')"
  shows "\<exists>rows. tbl' = tbl @ rows \<and> set (map workload rows) \<subseteq> set (map fst ws) \<and>
           e \<noteq> ZeroDivisionError"
  using assms
proof (induction ws arbitrary: acc tbl)
  case Nil
  then show ?case by simp
next
  case (Cons a ws)
  obtain w trace_path where a: "a = (w, trace_path)" by (cases a)
  show ?case
  proof (cases "rn trace_path")
    case None
    with Cons.prems a show ?thesis by auto
  next
    case (Some out)
    show ?thesis
    proof (cases "parse_hit_rate out")
      case (Inl e')
      then have "e' = RuntimeError ''LLC TOTAL not found''"
        by (rule parse_hit_rate_error)
      with Inl Some Cons.prems a show ?thesis by auto
    next
      case (Inr t)
      with Some Cons.prems a
      have "run_workloads ws rn name desc cc (acc + t) (record_row tbl w name desc cc t [])
            = Inl (e, tbl')" by simp
      from Cons.IH [OF this] obtain rows
        where "tbl' = record_row tbl w name desc cc t [] @ rows"
          and "set (map workload rows) \<subseteq> set (map fst ws)" and "e \<noteq> ZeroDivisionError"
        by blast
      then show ?thesis
        by (intro exI [of _ "\<lparr>workload = w, policy = name, policy_description = desc,
            workload_description = [], cpp_file_path = cc,
            cache_hit_rate = t, score = t\<rparr> # rows"])
           (auto simp: record_row_def a)
    qed
  qed
qed

section \<open>Examples\<close>

lemma example_reply_parsed:
  "parse_reply example_reply = Inr (''My Policy'', ''Keeps hot lines.'', ''int x;'')"
  by code_simp

lemma example_reports:
  "parse_hit_rate ''LLC TOTAL ACCESS: 5 HIT: 3'' = Inr (3 / 5)"
  "parse_hit_rate ''LLC TOTAL ACCESS: 50 HIT: 33'' = Inr (33 / 50)"
  "parse_hit_rate ''LLC TOTAL ACCESS: 1 HIT: 0'' = Inr 0"
  "parse_hit_rate ''LLC TOTAL ACCESS: 2 HIT: 1'' = Inr (1 / 2)"
  "parse_hit_rate ''LLC TOTAL ACCESS: 2 HIT: 0'' = Inr 0"
  by code_simp+

section \<open>The score column\<close>

text \<open>
  C1. A pass of the loop on a candidate whose hit rates are \<open>1/2\<close> on \<open>astar\<close> and \<open>0\<close>
  on the other four workloads records \<open>score = 1/2\<close> in the \<open>astar\<close> row and \<open>0\<close> in
  the next four, each row's own hit rate, and the mean \<open>1/10\<close> in the \<open>all\<close> row only:
  \<open>record\<close> writes \<open>rate\<close> into both columns. The seeding script writes the mean into
  every row of a policy.
\<close>

theorem loop_rows_score_is_own_rate:
  "(case init_state [1 / 2] [] Map.empty of
      Inr s0 \<Rightarrow>
        (case loop_body mixed_pass s0 of
           Next s1 \<Rightarrow>
             map (\<lambda>r. (workload r, cache_hit_rate r, score r)) (db s1) =
               [(''astar'', 1 / 2, 1 / 2), (''lbm'', 0, 0), (''mcf'', 0, 0), (''milc'', 0, 0),
                (''omnetpp'', 0, 0), (''all'', 1 / 10, 1 / 10)]
         | _ \<Rightarrow> False)
    | Inl e \<Rightarrow> False)"
  by code_simp

section \<open>A failed build\<close>

lemma loop_body_Retry_iff:
  "(\<exists>st'. loop_body inp st = Retry st') \<longleftrightarrow>
   (\<not> build_ok inp \<and> (\<exists>name desc code. parse_reply (reply inp) = Inr (name, desc, code)))"
proof (cases rule: loop_body_cases [where inp = inp and st = st])
  case (parse_error e)
  then show ?thesis by (simp add: loop_body_parse_error)
next
  case (build_failed name desc code)
  then show ?thesis by (simp add: loop_body_build_failed)
next
  case (run_error name desc code e tbl)
  then show ?thesis by (simp add: loop_body_run_error)
next
  case (evaluated name desc code tmp tbl)
  then show ?thesis by (simp add: loop_body_evaluated Let_def)
qed

lemma loop_body_prev:
  "(\<exists>st'. loop_body inp st = Next st') \<or>
   (prev_name (state_of (loop_body inp st)) = prev_name st \<and>
    prev_desc (state_of (loop_body inp st)) = prev_desc st \<and>
    prev_code (state_of (loop_body inp st)) = prev_code st)"
proof (cases rule: loop_body_cases [where inp = inp and st = st])
  case (parse_error e)
  then show ?thesis by (simp add: loop_body_parse_error compose_fields)
next
  case (build_failed name desc code)
  then show ?thesis by (simp add: loop_body_build_failed compose_fields)
next
  case (run_error name desc code e tbl)
  then show ?thesis by (simp add: loop_body_run_error compose_fields)
next
  case (evaluated name desc code tmp tbl)
  then show ?thesis by (simp add: loop_body_evaluated Let_def compose_fields)
qed

lemma loop_body_Next_build_ok: "loop_body inp st = Next st' \<Longrightarrow> build_ok inp"
proof (cases rule: loop_body_cases [where inp = inp and st = st])
  case (parse_error e)
  then show "loop_body inp st = Next st' \<Longrightarrow> build_ok inp" by (simp add: loop_body_parse_error)
next
  case (build_failed name desc code)
  then show "loop_body inp st = Next st' \<Longrightarrow> build_ok inp" by (simp add: loop_body_build_failed)
next
  case (run_error name desc code e tbl)
  then show "loop_body inp st = Next st' \<Longrightarrow> build_ok inp" by simp
next
  case (evaluated name desc code tmp tbl)
  then show "loop_body inp st = Next st' \<Longrightarrow> build_ok inp" by simp
qed

text \<open>
  C4 (as the specification states it, refuted). From the seed \<open>1/2\<close>, a first candidate
  scores \<open>3/5\<close>; the build of the second one fails. The failed pass has already taken
  the improvement branch, so \<open>best_hit\<close> goes from \<open>1/2\<close> to \<open>3/5\<close> across the failed
  attempt and the retry's prompt says "not better than" where the failed attempt's
  prompt said "improved".
\<close>

theorem build_failure_feedback_counterexample:
  "(case init_state [1 / 2] [] Map.empty of
      Inr s0 \<Rightarrow>
        (case loop_body (example_pass ''LLC TOTAL ACCESS: 5 HIT: 3'') s0 of
           Next s1 \<Rightarrow>
             (case loop_body failed_build s1 of
                Retry s2 \<Rightarrow>
                  best_hit s1 = 1 / 2 \<and> best_hit s2 = 3 / 5 \<and>
                  fst (compose s1) =
                    Refine (Some ''My Policy'') (Some ''Keeps hot lines.'') (Some ''int x;'')
                      (Improved (1 / 2) (3 / 5)) \<and>
                  fst (compose s2) =
                    Refine (Some ''My Policy'') (Some ''Keeps hot lines.'') (Some ''int x;'')
                      (NotBetter (3 / 5) (3 / 5))
              | _ \<Rightarrow> False)
         | _ \<Rightarrow> False)
    | Inl e \<Rightarrow> False)"
  by code_simp

text \<open>
  C4 (amended). When the reply parses and the build fails, the pass ends in the retry: the
  table, \<open>current_hit\<close>, the index and the previous candidate are those from before the
  attempt, and \<open>best_hit\<close> is what the comparison of the failed pass itself made it
  (\<open>current_hit\<close> if that was greater, after the first evaluation). The retry composes
  from a state that a further comparison leaves alone, and when the failed pass found
  no improvement its prompt is the prompt of the failed attempt. A retry happens only
  after a failed build. The previous candidate changes only in a pass that ends at the
  bottom of the loop body, with a successful build.
\<close>

theorem build_failure_retry:
  "(parse_reply (reply inp) = Inr (name, desc, code) \<and> \<not> build_ok inp \<longrightarrow>
      (\<exists>st'. loop_body inp st = Retry st' \<and>
         db st' = db st \<and> current_hit st' = current_hit st \<and> iter st' = iter st \<and>
         prev_name st' = prev_name st \<and> prev_desc st' = prev_desc st \<and>
         prev_code st' = prev_code st \<and>
         best_hit st' =
           (if iter st \<noteq> 0 \<and> current_hit st > best_hit st then current_hit st else best_hit st) \<and>
         snd (compose st') = st' \<and>
         (\<not> (iter st \<noteq> 0 \<and> current_hit st > best_hit st) \<longrightarrow>
            best_hit st' = best_hit st \<and> fst (compose st') = fst (compose st)))) \<and>
   (loop_body inp st = Retry st'' \<longrightarrow>
      \<not> build_ok inp \<and> (\<exists>n d c. parse_reply (reply inp) = Inr (n, d, c))) \<and>
   (prev_name (state_of (loop_body inp st)) \<noteq> prev_name st \<or>
    prev_desc (state_of (loop_body inp st)) \<noteq> prev_desc st \<or>
    prev_code (state_of (loop_body inp st)) \<noteq> prev_code st \<longrightarrow>
      build_ok inp \<and> (\<exists>st'. loop_body inp st = Next st'))"
proof (intro conjI impI)
  assume a: "parse_reply (reply inp) = Inr (name, desc, code) \<and> \<not> build_ok inp"
  let ?st' = "(snd (compose st))\<lparr>disk := (disk st)(cc_path (iter st) (sanitize name) \<mapsto> code)\<rparr>"
  from a have r: "loop_body inp st = Retry ?st'" by (simp add: loop_body_build_failed)
  have f: "db ?st' = db st" "current_hit ?st' = current_hit st" "iter ?st' = iter st"
    "prev_name ?st' = prev_name st" "prev_desc ?st' = prev_desc st" "prev_code ?st' = prev_code st"
    by (simp_all add: compose_fields)
  have b: "best_hit ?st' =
      (if iter st \<noteq> 0 \<and> current_hit st > best_hit st then current_hit st else best_hit st)"
    by (simp add: compose_best)
  have i: "snd (compose ?st') = ?st'" by (simp add: compose_def)
  have s: "\<not> (iter st \<noteq> 0 \<and> current_hit st > best_hit st) \<longrightarrow>
      best_hit ?st' = best_hit st \<and> fst (compose ?st') = fst (compose st)"
    by (auto simp: compose_def)
  from r f b i s show "\<exists>st'. loop_body inp st = Retry st' \<and>
         db st' = db st \<and> current_hit st' = current_hit st \<and> iter st' = iter st \<and>
         prev_name st' = prev_name st \<and> prev_desc st' = prev_desc st \<and>
         prev_code st' = prev_code st \<and>
         best_hit st' =
           (if iter st \<noteq> 0 \<and> current_hit st > best_hit st then current_hit st else best_hit st) \<and>
         snd (compose st') = st' \<and>
         (\<not> (iter st \<noteq> 0 \<and> current_hit st > best_hit st) \<longrightarrow>
            best_hit st' = best_hit st \<and> fst (compose st') = fst (compose st))"
    by (intro exI [of _ ?st'] conjI)
next
  assume "loop_body inp st = Retry st''"
  then have "\<exists>st'. loop_body inp st = Retry st'" by blast
  then show "\<not> build_ok inp" and "\<exists>n d c. parse_reply (reply inp) = Inr (n, d, c)"
    unfolding loop_body_Retry_iff by blast+
next
  assume a: "prev_name (state_of (loop_body inp st)) \<noteq> prev_name st \<or>
    prev_desc (state_of (loop_body inp st)) \<noteq> prev_desc st \<or>
    prev_code (state_of (loop_body inp st)) \<noteq> prev_code st"
  with loop_body_prev [of inp st] show n: "\<exists>st'. loop_body inp st = Next st'" by blast
  then show "build_ok inp" using loop_body_Next_build_ok by blast
qed

theorem build_failure_retry_witness:
  "\<not> build_ok failed_build \<and>
   parse_reply (reply failed_build) = Inr (''My Policy'', ''Keeps hot lines.'', ''int x;'') \<and>
   (\<exists>st'. loop_body failed_build
        \<lparr>iter = 1, best_hit = 3 / 5, current_hit = 1 / 2, prev_name = Some ''A'',
         prev_desc = Some ''B'', prev_code = Some ''C'', db = [], disk = Map.empty\<rparr> = Retry st' \<and>
      db st' = [] \<and> current_hit st' = 1 / 2 \<and> iter st' = 1 \<and> prev_name st' = Some ''A'' \<and>
      best_hit st' = 3 / 5 \<and>
      fst (compose st') = Refine (Some ''A'') (Some ''B'') (Some ''C'') (NotBetter (1 / 2) (3 / 5)))"
proof -
  let ?st = "\<lparr>iter = 1, best_hit = 3 / 5, current_hit = 1 / 2, prev_name = Some ''A'',
         prev_desc = Some ''B'', prev_code = Some ''C'', db = [], disk = Map.empty\<rparr>"
  have p: "parse_reply (reply failed_build) = Inr (''My Policy'', ''Keeps hot lines.'', ''int x;'')"
    and b: "\<not> build_ok failed_build"
    by (simp_all add: failed_build_def example_reply_parsed)
  note t = build_failure_retry [of failed_build "''My Policy''" "''Keeps hot lines.''" "''int x;''" ?st,
      THEN conjunct1, THEN mp, OF conjI [OF p b]]
  then obtain st' where r: "loop_body failed_build ?st = Retry st'"
    and f: "db st' = db ?st" "current_hit st' = current_hit ?st" "iter st' = iter ?st"
      "prev_name st' = prev_name ?st"
    and bh: "best_hit st' =
      (if iter ?st \<noteq> 0 \<and> current_hit ?st > best_hit ?st then current_hit ?st else best_hit ?st)"
    and s: "\<not> (iter ?st \<noteq> 0 \<and> current_hit ?st > best_hit ?st) \<longrightarrow>
            best_hit st' = best_hit ?st \<and> fst (compose st') = fst (compose ?st)"
    by blast
  from s have "fst (compose st') = Refine (Some ''A'') (Some ''B'') (Some ''C'') (NotBetter (1 / 2) (3 / 5))"
    by (simp add: compose_def)
  with r f bh p b show ?thesis by auto
qed

section \<open>The source file of a retried pass\<close>

lemma cc_path_eq_iff: "cc_path i b = cc_path i b' \<longleftrightarrow> b = b'"
  by (simp add: cc_path_def)

lemma loop_body_disk:
  assumes "parse_reply (reply inp) = Inr (name, desc, code)"
  shows "disk (state_of (loop_body inp st)) = (disk st)(cc_path (iter st) (sanitize name) \<mapsto> code)"
proof (cases rule: loop_body_cases [where inp = inp and st = st])
  case (parse_error e)
  with assms show ?thesis by simp
next
  case (build_failed name' desc' code')
  with assms show ?thesis by (simp add: loop_body_build_failed)
next
  case (run_error name' desc' code' e tbl)
  with assms show ?thesis by (simp add: loop_body_run_error)
next
  case (evaluated name' desc' code' tmp tbl)
  with assms show ?thesis by (simp add: loop_body_evaluated Let_def)
qed

lemma loop_body_iter:
  "iter (state_of (loop_body inp st)) =
     (if \<exists>name desc code tmp tbl.
           parse_reply (reply inp) = Inr (name, desc, code) \<and> build_ok inp \<and>
           run_workloads workloads (runs inp) name desc (cc_path (iter st) (sanitize name)) 0 (db st)
             = Inr (tmp, tbl)
      then iter st + 1 else iter st)"
proof (cases rule: loop_body_cases [where inp = inp and st = st])
  case (parse_error e)
  then show ?thesis by (simp add: loop_body_parse_error compose_fields)
next
  case (build_failed name desc code)
  then show ?thesis by (simp add: loop_body_build_failed compose_fields)
next
  case (run_error name desc code e tbl)
  then show ?thesis by (simp add: loop_body_run_error compose_fields)
next
  case (evaluated name desc code tmp tbl)
  then show ?thesis by (simp add: loop_body_evaluated Let_def compose_fields)
qed

text \<open>
  C10. A pass that ends in the retry has written the candidate's source to the path made
  of the index and the sanitized name, and has left the index as it was. The next pass
  writes to the path of the same index: when the two sanitized names are equal it is
  the same path and the file now holds the new source; when they differ the file of
  the failed attempt stays. The index moves, by one, exactly in a pass that ran every
  workload and got every hit rate.
\<close>

theorem retry_overwrites_same_index:
  "(loop_body inp st = Retry st' \<longrightarrow>
      (\<exists>name desc code. parse_reply (reply inp) = Inr (name, desc, code) \<and> \<not> build_ok inp \<and>
         iter st' = iter st \<and>
         disk st' = (disk st)(cc_path (iter st) (sanitize name) \<mapsto> code))) \<and>
   (loop_body inp st = Retry st' \<and> parse_reply (reply inp) = Inr (name, desc, code) \<and>
    parse_reply (reply inp') = Inr (name', desc', code') \<longrightarrow>
      disk (state_of (loop_body inp' st')) =
        (disk st')(cc_path (iter st) (sanitize name') \<mapsto> code') \<and>
      (sanitize name' = sanitize name \<longrightarrow>
         cc_path (iter st') (sanitize name') = cc_path (iter st) (sanitize name) \<and>
         disk (state_of (loop_body inp' st')) (cc_path (iter st) (sanitize name)) = Some code') \<and>
      (sanitize name' \<noteq> sanitize name \<longrightarrow>
         disk (state_of (loop_body inp' st')) (cc_path (iter st) (sanitize name)) = Some code)) \<and>
   (iter (state_of (loop_body inp st)) = iter st + 1 \<longleftrightarrow>
      (\<exists>name desc code tmp tbl.
         parse_reply (reply inp) = Inr (name, desc, code) \<and> build_ok inp \<and>
         run_workloads workloads (runs inp) name desc (cc_path (iter st) (sanitize name)) 0 (db st)
           = Inr (tmp, tbl))) \<and>
   (iter (state_of (loop_body inp st)) \<noteq> iter st + 1 \<longrightarrow>
      iter (state_of (loop_body inp st)) = iter st)"
proof (intro conjI impI)
  assume r: "loop_body inp st = Retry st'"
  then have "\<exists>s. loop_body inp st = Retry s" by blast
  then obtain name desc code where p: "parse_reply (reply inp) = Inr (name, desc, code)"
    and b: "\<not> build_ok inp" unfolding loop_body_Retry_iff by blast
  from loop_body_build_failed [OF p b, of st] r
  have "st' = (snd (compose st))\<lparr>disk := (disk st)(cc_path (iter st) (sanitize name) \<mapsto> code)\<rparr>"
    by simp
  then have "iter st' = iter st"
    and "disk st' = (disk st)(cc_path (iter st) (sanitize name) \<mapsto> code)"
    by (simp_all add: compose_fields)
  with p b show "\<exists>name desc code. parse_reply (reply inp) = Inr (name, desc, code) \<and>
      \<not> build_ok inp \<and> iter st' = iter st \<and>
      disk st' = (disk st)(cc_path (iter st) (sanitize name) \<mapsto> code)" by blast
next
  assume a: "loop_body inp st = Retry st' \<and> parse_reply (reply inp) = Inr (name, desc, code) \<and>
    parse_reply (reply inp') = Inr (name', desc', code')"
  then have r: "loop_body inp st = Retry st'" and p: "parse_reply (reply inp) = Inr (name, desc, code)"
    and p': "parse_reply (reply inp') = Inr (name', desc', code')" by simp_all
  from r have "\<exists>s. loop_body inp st = Retry s" by blast
  then have b: "\<not> build_ok inp" unfolding loop_body_Retry_iff by blast
  from loop_body_build_failed [OF p b, of st] r
  have st': "st' = (snd (compose st))\<lparr>disk := (disk st)(cc_path (iter st) (sanitize name) \<mapsto> code)\<rparr>"
    by simp
  then have i: "iter st' = iter st"
    and d: "disk st' = (disk st)(cc_path (iter st) (sanitize name) \<mapsto> code)"
    by (simp_all add: compose_fields)
  from loop_body_disk [OF p', of st'] i
  show d': "disk (state_of (loop_body inp' st')) =
        (disk st')(cc_path (iter st) (sanitize name') \<mapsto> code')" by simp
  {
    assume "sanitize name' = sanitize name"
    with i d' show "cc_path (iter st') (sanitize name') = cc_path (iter st) (sanitize name)"
      and "disk (state_of (loop_body inp' st')) (cc_path (iter st) (sanitize name)) = Some code'"
      by simp_all
  }
  {
    assume "sanitize name' \<noteq> sanitize name"
    then have "cc_path (iter st) (sanitize name') \<noteq> cc_path (iter st) (sanitize name)"
      by (simp add: cc_path_eq_iff)
    with d d' show "disk (state_of (loop_body inp' st')) (cc_path (iter st) (sanitize name)) = Some code"
      by simp
  }
next
  show "iter (state_of (loop_body inp st)) = iter st + 1 \<longleftrightarrow>
      (\<exists>name desc code tmp tbl.
         parse_reply (reply inp) = Inr (name, desc, code) \<and> build_ok inp \<and>
         run_workloads workloads (runs inp) name desc (cc_path (iter st) (sanitize name)) 0 (db st)
           = Inr (tmp, tbl))"
    unfolding loop_body_iter [of inp st] by simp
next
  assume "iter (state_of (loop_body inp st)) \<noteq> iter st + 1"
  then show "iter (state_of (loop_body inp st)) = iter st"
    unfolding loop_body_iter [of inp st] by (simp split: if_splits)
qed

theorem retry_overwrites_same_index_witness:
  "sanitize ''my-policy'' = sanitize ''My Policy'' \<and>
   (\<exists>st'. loop_body failed_build
        \<lparr>iter = 3, best_hit = 1 / 2, current_hit = 1 / 2, prev_name = None,
         prev_desc = None, prev_code = None, db = [], disk = Map.empty\<rparr> = Retry st' \<and>
      iter st' = 3 \<and>
      disk st' ''ChampSim_CRC2/new_policies/003_my_policy.cc'' = Some ''int x;'' \<and>
      disk (state_of (loop_body
          \<lparr>reply = formatted_reply [] ''my-policy'' ''Other.'' ''int y;'' [], build_ok = False,
           runs = (\<lambda>trace. None)\<rparr> st'))
        ''ChampSim_CRC2/new_policies/003_my_policy.cc'' = Some ''int y;'')"
proof -
  let ?st = "\<lparr>iter = 3, best_hit = 1 / 2, current_hit = 1 / 2, prev_name = None,
         prev_desc = None, prev_code = None, db = [], disk = Map.empty\<rparr>"
  let ?inp' = "\<lparr>reply = formatted_reply [] ''my-policy'' ''Other.'' ''int y;'' [], build_ok = False,
           runs = (\<lambda>trace. None)\<rparr>"
  have p: "parse_reply (reply failed_build) = Inr (''My Policy'', ''Keeps hot lines.'', ''int x;'')"
    and b: "\<not> build_ok failed_build"
    by (simp_all add: failed_build_def example_reply_parsed)
  have "parse_reply (formatted_reply [] ''my-policy'' ''Other.'' ''int y;'' []) =
      Inr (''my-policy'', ''Other.'', ''int y;'')" by code_simp
  then have p': "parse_reply (reply ?inp') = Inr (''my-policy'', ''Other.'', ''int y;'')" by simp
  have s: "sanitize ''my-policy'' = sanitize ''My Policy''" by code_simp
  have path: "cc_path 3 (sanitize ''My Policy'') = ''ChampSim_CRC2/new_policies/003_my_policy.cc''"
    by code_simp
  from p b obtain st' where r: "loop_body failed_build ?st = Retry st'"
    using loop_body_Retry_iff [of failed_build ?st] by blast
  note t = retry_overwrites_same_index
    [of failed_build ?st st' "''My Policy''" "''Keeps hot lines.''" "''int x;''" ?inp'
        "''my-policy''" "''Other.''" "''int y;''"]
  from t [THEN conjunct1] r p
  have i: "iter st' = 3"
    and d: "disk st' = (disk ?st)(cc_path (iter ?st) (sanitize ''My Policy'') \<mapsto> ''int x;'')"
    by auto
  from t [THEN conjunct2, THEN conjunct1] r p p' s
  have "disk (state_of (loop_body ?inp' st')) (cc_path (iter ?st) (sanitize ''My Policy'')) = Some ''int y;''"
    by blast
  with d i r s path show ?thesis by (intro conjI exI [of _ st']) simp_all
qed

section \<open>The decision at the end of a pass\<close>









section \<open>The best score over a run\<close>

lemma loop_body_best: "best_hit (state_of (loop_body inp st)) = best_hit (snd (compose st))"
proof (cases rule: loop_body_cases [where inp = inp and st = st])
  case (parse_error e)
  then show ?thesis by (simp add: loop_body_parse_error)
next
  case (build_failed name desc code)
  then show ?thesis by (simp add: loop_body_build_failed)
next
  case (run_error name desc code e tbl)
  then show ?thesis by (simp add: loop_body_run_error)
next
  case (evaluated name desc code tmp tbl)
  then show ?thesis by (simp add: loop_body_evaluated Let_def)
qed

lemma compose_best_mono: "best_hit st \<le> best_hit (snd (compose st))"
  by (simp add: compose_best)

lemma loop_body_best_mono: "best_hit st \<le> best_hit (state_of (loop_body inp st))"
  by (simp add: loop_body_best compose_best_mono)

lemma run_loop_step:
  "state_of (run_loop (inp # inps) st) = state_of (loop_body inp st) \<or>
   state_of (run_loop (inp # inps) st) = state_of (run_loop inps (state_of (loop_body inp st)))"
  by (cases "loop_body inp st") simp_all

lemma run_loop_best_mono: "best_hit st \<le> best_hit (state_of (run_loop inps st))"
proof (induction inps arbitrary: st)
  case Nil
  then show ?case by simp
next
  case (Cons inp inps)
  have a: "best_hit st \<le> best_hit (state_of (loop_body inp st))" by (rule loop_body_best_mono)
  from run_loop_step [of inp inps st] show ?case
  proof
    assume "state_of (run_loop (inp # inps) st) = state_of (loop_body inp st)"
    with a show ?thesis by simp
  next
    assume "state_of (run_loop (inp # inps) st) =
        state_of (run_loop inps (state_of (loop_body inp st)))"
    with a Cons.IH [of "state_of (loop_body inp st)"] show ?thesis by simp
  qed
qed

text \<open>Only the aggregate row of a pass is recorded under \<open>all\<close>.\<close>

lemma all_scores_append: "all_scores (a @ b) = all_scores a @ all_scores b"
  by (simp add: all_scores_def)

lemma all_scores_workload_rows:
  assumes "set (map workload rows) \<subseteq> set (map fst workloads)"
  shows "all_scores rows = []"
proof -
  have "''all'' \<notin> set (map fst workloads)" by (simp add: workloads_def)
  with assms have "\<forall>r\<in>set rows. workload r \<noteq> ''all''"
    unfolding set_map by (metis image_eqI subsetD)
  then show ?thesis by (simp add: all_scores_def filter_empty_conv)
qed

lemma all_scores_record_all:
  "all_scores (record_row tbl ''all'' name desc cc cur wd) = all_scores tbl @ [cur]"
  by (simp add: all_scores_def record_row_def)

lemma loop_body_all_scores:
  "all_scores (db (state_of (loop_body inp st))) = all_scores (db st) \<and>
     iter (state_of (loop_body inp st)) = iter st \<and>
     current_hit (state_of (loop_body inp st)) = current_hit st \<or>
   all_scores (db (state_of (loop_body inp st))) =
     all_scores (db st) @ [current_hit (state_of (loop_body inp st))] \<and>
     iter (state_of (loop_body inp st)) = iter st + 1"
proof (cases rule: loop_body_cases [where inp = inp and st = st])
  case (parse_error e)
  then show ?thesis by (simp add: loop_body_parse_error compose_fields)
next
  case (build_failed name desc code)
  then show ?thesis by (simp add: loop_body_build_failed compose_fields)
next
  case (run_error name desc code e tbl)
  from run_workloads_error_rows [OF run_error(3)] obtain rows
    where "tbl = db st @ rows" and "set (map workload rows) \<subseteq> set (map fst workloads)"
    by blast
  then have "all_scores tbl = all_scores (db st)"
    by (simp add: all_scores_append all_scores_workload_rows)
  with run_error show ?thesis by (simp add: loop_body_run_error compose_fields)
next
  case (evaluated name desc code tmp tbl)
  from run_workloads_rows [OF evaluated(3)] obtain rows
    where "tbl = db st @ rows" and "map workload rows = map fst workloads"
    by blast
  then have "all_scores tbl = all_scores (db st)"
    by (simp add: all_scores_append all_scores_workload_rows)
  with evaluated show ?thesis
    by (simp add: loop_body_evaluated Let_def compose_fields all_scores_record_all)
qed

text \<open>The state at the head of the loop, against the scores evaluated so far.\<close>

lemma Max_snoc: "Max (set (x # xs @ [y])) = max (Max (set (x # xs))) y"
proof -
  have "set (x # xs @ [y]) = insert y (set (x # xs))" by auto
  then show ?thesis by (simp add: max.commute)
qed

lemma compose_catches_up:
  assumes "length scores = iter st" and "current_hit st = last (seed # scores)"
    and "best_hit st = Max (set (seed # scores)) \<or>
         scores \<noteq> [] \<and> best_hit st = Max (set (seed # butlast scores))"
  shows "best_hit (snd (compose st)) = Max (set (seed # scores))"
proof (cases "scores = []")
  case True
  with assms show ?thesis by (simp add: compose_best)
next
  case False
  then obtain ys y where s: "scores = ys @ [y]" by (cases scores rule: rev_cases) auto
  with assms(1) have i: "iter st \<noteq> 0" by simp
  from s assms(2) have c: "current_hit st = y" by simp
  define B where "B = Max (set (seed # ys))"
  have m: "Max (set (seed # scores)) = max B y"
    unfolding s B_def by (rule Max_snoc)
  from assms(3) have "best_hit st = max B y \<or> best_hit st = B"
    unfolding m by (simp add: s B_def)
  then show ?thesis
    unfolding m compose_best using i c by (auto simp: max_def split: if_splits)
qed

lemma loop_body_invariant:
  assumes "all_scores (db st) = base @ scores" and "length scores = iter st"
    and "current_hit st = last (seed # scores)"
    and "best_hit st = Max (set (seed # scores)) \<or>
         scores \<noteq> [] \<and> best_hit st = Max (set (seed # butlast scores))"
  shows "\<exists>scores'. all_scores (db (state_of (loop_body inp st))) = base @ scores' \<and>
     length scores' = iter (state_of (loop_body inp st)) \<and>
     current_hit (state_of (loop_body inp st)) = last (seed # scores') \<and>
     (best_hit (state_of (loop_body inp st)) = Max (set (seed # scores')) \<or>
      scores' \<noteq> [] \<and> best_hit (state_of (loop_body inp st)) = Max (set (seed # butlast scores')))"
proof -
  let ?s = "state_of (loop_body inp st)"
  have b: "best_hit ?s = Max (set (seed # scores))"
    unfolding loop_body_best using assms(2,3,4) by (rule compose_catches_up)
  from loop_body_all_scores [of inp st] show ?thesis
  proof
    assume "all_scores (db ?s) = all_scores (db st) \<and> iter ?s = iter st \<and>
      current_hit ?s = current_hit st"
    with assms b show ?thesis by (intro exI [of _ scores]) simp
  next
    assume "all_scores (db ?s) = all_scores (db st) @ [current_hit ?s] \<and> iter ?s = iter st + 1"
    with assms b show ?thesis by (intro exI [of _ "scores @ [current_hit ?s]"]) simp
  qed
qed

lemma run_loop_invariant:
  assumes "all_scores (db st) = base @ scores" and "length scores = iter st"
    and "current_hit st = last (seed # scores)"
    and "best_hit st = Max (set (seed # scores)) \<or>
         scores \<noteq> [] \<and> best_hit st = Max (set (seed # butlast scores))"
  shows "\<exists>scores'. all_scores (db (state_of (run_loop inps st))) = base @ scores' \<and>
     length scores' = iter (state_of (run_loop inps st)) \<and>
     current_hit (state_of (run_loop inps st)) = last (seed # scores') \<and>
     (best_hit (state_of (run_loop inps st)) = Max (set (seed # scores')) \<or>
      scores' \<noteq> [] \<and> best_hit (state_of (run_loop inps st)) = Max (set (seed # butlast scores')))"
  using assms
proof (induction inps arbitrary: st scores)
  case Nil
  then show ?case by (intro exI [of _ scores]) simp
next
  case (Cons inp inps)
  from loop_body_invariant [OF Cons.prems, of inp] obtain scores1
    where i: "all_scores (db (state_of (loop_body inp st))) = base @ scores1"
      "length scores1 = iter (state_of (loop_body inp st))"
      "current_hit (state_of (loop_body inp st)) = last (seed # scores1)"
      "best_hit (state_of (loop_body inp st)) = Max (set (seed # scores1)) \<or>
       scores1 \<noteq> [] \<and> best_hit (state_of (loop_body inp st)) = Max (set (seed # butlast scores1))"
    by blast
  from run_loop_step [of inp inps st] show ?case
  proof
    assume "state_of (run_loop (inp # inps) st) = state_of (loop_body inp st)"
    with i show ?thesis by (intro exI [of _ scores1]) simp
  next
    assume "state_of (run_loop (inp # inps) st) =
        state_of (run_loop inps (state_of (loop_body inp st)))"
    with Cons.IH [OF i] show ?thesis by simp
  qed
qed

lemma max_best_current:
  assumes "current_hit st = last (seed # scores)"
    and "best_hit st = Max (set (seed # scores)) \<or>
         scores \<noteq> [] \<and> best_hit st = Max (set (seed # butlast scores))"
  shows "max (best_hit st) (current_hit st) = Max (set (seed # scores))"
proof (cases "scores = []")
  case True
  with assms show ?thesis by simp
next
  case False
  then obtain ys y where s: "scores = ys @ [y]" by (cases scores rule: rev_cases) auto
  define B where "B = Max (set (seed # ys))"
  have m: "Max (set (seed # scores)) = max B y"
    unfolding s B_def by (rule Max_snoc)
  from assms(1) s have c: "current_hit st = y" by simp
  from assms(2) have "best_hit st = max B y \<or> best_hit st = B"
    unfolding m by (simp add: s B_def)
  then show ?thesis unfolding m c by (auto simp: max_def split: if_splits)
qed

text \<open>
  C9 (as stated, refuted). From the seed \<open>1/2\<close>, after the first candidate has been
  evaluated and recorded with the aggregate \<open>3/5\<close>, the loop is at its head with
  \<open>best_hit\<close> still \<open>1/2\<close>, below the maximum \<open>3/5\<close> of the seed and the scores
  evaluated so far. It is against this \<open>1/2\<close> that the termination test was made.
\<close>

theorem best_lags_counterexample:
  "(case init_state [1 / 2] [] Map.empty of
      Inr s0 \<Rightarrow>
        (case run_loop [example_pass ''LLC TOTAL ACCESS: 5 HIT: 3''] s0 of
           Next s1 \<Rightarrow>
             all_scores (db s1) = [3 / 5] \<and> best_hit s1 = 1 / 2 \<and>
             best_hit s1 < fold max (all_scores (db s1)) (1 / 2)
         | _ \<Rightarrow> False)
    | Inl e \<Rightarrow> False)"
  by code_simp

text \<open>
  C9 (amended). \<open>best_hit\<close> never decreases, in a pass or over a run; it starts as the
  score of the first row of \<open>top_policies\<close>, only the comparison at the head of a pass
  assigns it, and that only under \<open>current_hit > best_hit\<close>, to \<open>current_hit\<close>. At
  every point where the loop is at its head or has ended, with \<open>scores\<close> the aggregate
  scores recorded by the run so far, \<open>best_hit\<close> is the maximum of the seed and
  \<open>scores\<close>, or of the seed and \<open>scores\<close> without the last one (between an evaluation
  and the next comparison), and \<open>max best_hit current_hit\<close> is the maximum of the seed
  and all of \<open>scores\<close>.
\<close>

theorem best_hit_monotone_max:
  "best_hit st \<le> best_hit (state_of (loop_body inp st)) \<and>
   best_hit st \<le> best_hit (state_of (run_loop inps st)) \<and>
   best_hit (state_of (loop_body inp st)) = best_hit (snd (compose st)) \<and>
   (best_hit (snd (compose st)) \<noteq> best_hit st \<longrightarrow>
      current_hit st > best_hit st \<and> best_hit (snd (compose st)) = current_hit st) \<and>
   (init_state tops db0 disk0 = Inr st0 \<longrightarrow>
      best_hit st0 = hd tops \<and>
      (\<exists>scores.
         all_scores (db (state_of (run_loop inps st0))) = all_scores db0 @ scores \<and>
         length scores = iter (state_of (run_loop inps st0)) \<and>
         (best_hit (state_of (run_loop inps st0)) = Max (set (hd tops # scores)) \<or>
          scores \<noteq> [] \<and>
          best_hit (state_of (run_loop inps st0)) = Max (set (hd tops # butlast scores))) \<and>
         max (best_hit (state_of (run_loop inps st0))) (current_hit (state_of (run_loop inps st0)))
           = Max (set (hd tops # scores))))"
proof (intro conjI impI)
  show "best_hit st \<le> best_hit (state_of (loop_body inp st))" by (rule loop_body_best_mono)
  show "best_hit st \<le> best_hit (state_of (run_loop inps st))" by (rule run_loop_best_mono)
  show "best_hit (state_of (loop_body inp st)) = best_hit (snd (compose st))"
    by (rule loop_body_best)
next
  assume "best_hit (snd (compose st)) \<noteq> best_hit st"
  then show "current_hit st > best_hit st" and "best_hit (snd (compose st)) = current_hit st"
    by (auto simp: compose_best split: if_splits)
next
  assume i: "init_state tops db0 disk0 = Inr st0"
  then obtain seed rest where t: "tops = seed # rest"
    by (cases tops) (simp_all add: init_state_def)
  with i have st0: "st0 = \<lparr>iter = 0, best_hit = seed, current_hit = seed,
      prev_name = None, prev_desc = None, prev_code = None, db = db0, disk = disk0\<rparr>"
    by (simp add: init_state_def)
  then show "best_hit st0 = hd tops" by (simp add: t)
  have "\<exists>scores'. all_scores (db (state_of (run_loop inps st0))) = all_scores db0 @ scores' \<and>
     length scores' = iter (state_of (run_loop inps st0)) \<and>
     current_hit (state_of (run_loop inps st0)) = last (seed # scores') \<and>
     (best_hit (state_of (run_loop inps st0)) = Max (set (seed # scores')) \<or>
      scores' \<noteq> [] \<and> best_hit (state_of (run_loop inps st0)) = Max (set (seed # butlast scores')))"
    by (rule run_loop_invariant [where scores = "[]"]) (simp_all add: st0)
  then obtain scores
    where a: "all_scores (db (state_of (run_loop inps st0))) = all_scores db0 @ scores"
      "length scores = iter (state_of (run_loop inps st0))"
      and c: "current_hit (state_of (run_loop inps st0)) = last (seed # scores)"
      and b: "best_hit (state_of (run_loop inps st0)) = Max (set (seed # scores)) \<or>
        scores \<noteq> [] \<and> best_hit (state_of (run_loop inps st0)) = Max (set (seed # butlast scores))"
    by blast
  from max_best_current [OF c b] a b
  show "\<exists>scores.
         all_scores (db (state_of (run_loop inps st0))) = all_scores db0 @ scores \<and>
         length scores = iter (state_of (run_loop inps st0)) \<and>
         (best_hit (state_of (run_loop inps st0)) = Max (set (hd tops # scores)) \<or>
          scores \<noteq> [] \<and>
          best_hit (state_of (run_loop inps st0)) = Max (set (hd tops # butlast scores))) \<and>
         max (best_hit (state_of (run_loop inps st0))) (current_hit (state_of (run_loop inps st0)))
           = Max (set (hd tops # scores))"
    unfolding t list.sel by (intro exI [of _ scores]) simp
qed

theorem best_hit_monotone_max_witness:
  "(\<exists>s0. init_state [1 / 2] [] Map.empty = Inr s0 \<and> best_hit s0 = 1 / 2 \<and>
      max (best_hit (state_of (run_loop [example_pass ''LLC TOTAL ACCESS: 5 HIT: 3'', failed_build] s0)))
          (current_hit (state_of (run_loop [example_pass ''LLC TOTAL ACCESS: 5 HIT: 3'', failed_build] s0)))
        = 3 / 5 \<and>
      all_scores (db (state_of (run_loop [example_pass ''LLC TOTAL ACCESS: 5 HIT: 3'', failed_build] s0)))
        = [3 / 5])"
proof -
  let ?inps = "[example_pass ''LLC TOTAL ACCESS: 5 HIT: 3'', failed_build]"
  obtain s0 where i: "init_state [1 / 2] [] Map.empty = Inr s0" by (simp add: init_state_def)
  have d: "(case init_state [1 / 2] [] Map.empty of
      Inr s \<Rightarrow> all_scores (db (state_of (run_loop ?inps s))) = [3 / 5] | Inl e \<Rightarrow> False)"
    by code_simp
  with i have a: "all_scores (db (state_of (run_loop ?inps s0))) = [3 / 5]" by simp
  from best_hit_monotone_max [of _ _ ?inps "[1 / 2]" "[]" Map.empty s0,
      THEN conjunct2, THEN conjunct2, THEN conjunct2, THEN conjunct2, THEN mp, OF i]
  obtain scores where "best_hit s0 = hd [1 / 2 :: rat]"
    and "all_scores (db (state_of (run_loop ?inps s0))) = all_scores [] @ scores"
    and m: "max (best_hit (state_of (run_loop ?inps s0))) (current_hit (state_of (run_loop ?inps s0)))
           = Max (set (hd [1 / 2] # scores))"
    by blast
  with a have "scores = [3 / 5]" and b: "best_hit s0 = 1 / 2" by (simp_all add: all_scores_def)
  with m have "max (best_hit (state_of (run_loop ?inps s0))) (current_hit (state_of (run_loop ?inps s0)))
      = 3 / 5" by simp
  with i a b show ?thesis by blast
qed

section \<open>The aggregate row\<close>

subsection \<open>In the search loop\<close>

lemma loop_body_db:
  assumes "parse_reply (reply inp) = Inr (name, desc, code)" and "build_ok inp"
    and "run_workloads workloads (runs inp) name desc (cc_path (iter st) (sanitize name)) 0 (db st)
         = Inr (tmp, tbl)"
  shows "db (state_of (loop_body inp st)) =
           record_row tbl ''all'' name desc (cc_path (iter st) (sanitize name))
             (tmp / of_nat (length workloads)) []"
    and "current_hit (state_of (loop_body inp st)) = tmp / of_nat (length workloads)"
  unfolding loop_body_evaluated [OF assms] Let_def by simp_all

lemma loop_body_rows_mean:
  assumes "parse_reply (reply inp) = Inr (name, desc, code)" and "build_ok inp"
    and "run_workloads workloads (runs inp) name desc (cc_path (iter st) (sanitize name)) 0 (db st)
         = Inr (tmp, tbl)"
  shows "\<exists>rows agg. db (state_of (loop_body inp st)) = db st @ rows @ [agg] \<and>
     map workload rows = map fst workloads \<and> (\<forall>r\<in>set rows. policy r = name) \<and>
     workload agg = ''all'' \<and> policy agg = name \<and>
     score agg = mean (map cache_hit_rate rows) \<and> cache_hit_rate agg = score agg \<and>
     current_hit (state_of (loop_body inp st)) = score agg"
proof -
  let ?cc = "cc_path (iter st) (sanitize name)"
  let ?cur = "tmp / of_nat (length workloads)"
  let ?agg = "\<lparr>workload = ''all'', policy = name, policy_description = desc,
            workload_description = [], cpp_file_path = ?cc,
            cache_hit_rate = ?cur, score = ?cur\<rparr>"
  from run_workloads_rows [OF assms(3)] obtain rows
    where t: "tbl = db st @ rows" and w: "map workload rows = map fst workloads"
      and s: "tmp = 0 + sum_list (map cache_hit_rate rows)"
      and p: "\<forall>r\<in>set rows. policy r = name \<and> policy_description r = desc \<and>
               cpp_file_path r = ?cc \<and> score r = cache_hit_rate r"
    by blast
  from w have "length rows = length workloads" by (rule map_eq_imp_length_eq)
  with s have m: "?cur = mean (map cache_hit_rate rows)" by (simp add: mean_def)
  have d: "db (state_of (loop_body inp st)) = db st @ rows @ [?agg]"
    unfolding loop_body_db(1) [OF assms] t by (simp add: record_row_def)
  have c: "current_hit (state_of (loop_body inp st)) = ?cur" by (rule loop_body_db(2) [OF assms])
  from d w p m c show ?thesis
    by (intro exI [of _ rows] exI [of _ ?agg]) simp
qed

subsection \<open>In the seeding script\<close>

lemma append_rates_result:
  assumes "append_rates m row i ps = Inr m'" and "distinct ps"
  shows "(\<forall>p. p \<notin> set ps \<longrightarrow> m' p = m p) \<and>
         (\<forall>j<length ps. m' (ps ! j) = Some (rates_of m (ps ! j) @ [row ! (i + j)]))"
  using assms
proof (induction ps arbitrary: m i)
  case Nil
  then show ?case by simp
next
  case (Cons p ps)
  let ?m1 = "m(p \<mapsto> rates_of m p @ [row ! i])"
  from Cons.prems have r: "append_rates ?m1 row (Suc i) ps = Inr m'"
    and d: "distinct ps" and np: "p \<notin> set ps"
    by (auto split: if_splits)
  from Cons.IH [OF r d] have out: "\<forall>q. q \<notin> set ps \<longrightarrow> m' q = ?m1 q"
    and ins: "\<forall>j<length ps. m' (ps ! j) = Some (rates_of ?m1 (ps ! j) @ [row ! (Suc i + j)])"
    by blast+
  have "\<forall>q. q \<notin> set (p # ps) \<longrightarrow> m' q = m q" using out by simp
  moreover have "\<forall>j<length (p # ps). m' ((p # ps) ! j) =
      Some (rates_of m ((p # ps) ! j) @ [row ! (i + j)])"
  proof (intro allI impI)
    fix j
    assume j: "j < length (p # ps)"
    show "m' ((p # ps) ! j) = Some (rates_of m ((p # ps) ! j) @ [row ! (i + j)])"
    proof (cases j)
      case 0
      with out np show ?thesis by simp
    next
      case (Suc k)
      with j have k: "k < length ps" by simp
      then have "ps ! k \<noteq> p" using np by (metis nth_mem)
      then have "rates_of ?m1 (ps ! k) = rates_of m (ps ! k)" by (simp add: rates_of_def)
      with ins k Suc show ?thesis by simp
    qed
  qed
  ultimately show ?case by blast
qed

lemma policy_hit_rates_result:
  assumes "policy_hit_rates m perf ws ps = Inr m'" and "distinct ps"
  shows "(\<forall>j<length ps. rates_of m' (ps ! j) =
            rates_of m (ps ! j) @ map (\<lambda>w. the (map_of perf w) ! j) ws) \<and>
         (ws \<noteq> [] \<longrightarrow> (\<forall>p\<in>set ps. m' p \<noteq> None)) \<and>
         (ws = [] \<longrightarrow> m' = m)"
  using assms
proof (induction ws arbitrary: m)
  case Nil
  then show ?case by simp
next
  case (Cons w ws)
  from Cons.prems obtain row m1 where row: "map_of perf w = Some row"
    and a: "append_rates m row 0 ps = Inr m1"
    and r: "policy_hit_rates m1 perf ws ps = Inr m'"
    by (auto split: option.splits sum.splits)
  from append_rates_result [OF a Cons.prems(2)]
  have m1: "\<forall>j<length ps. m1 (ps ! j) = Some (rates_of m (ps ! j) @ [row ! j])" by simp
  from Cons.IH [OF r Cons.prems(2)]
  have ih: "\<forall>j<length ps. rates_of m' (ps ! j) =
            rates_of m1 (ps ! j) @ map (\<lambda>w. the (map_of perf w) ! j) ws"
    and some: "ws \<noteq> [] \<longrightarrow> (\<forall>p\<in>set ps. m' p \<noteq> None)"
    and same: "ws = [] \<longrightarrow> m' = m1" by blast+
  have "\<forall>j<length ps. rates_of m' (ps ! j) =
      rates_of m (ps ! j) @ map (\<lambda>w. the (map_of perf w) ! j) (w # ws)"
    using ih m1 row by (simp add: rates_of_def)
  moreover have "\<forall>p\<in>set ps. m' p \<noteq> None"
  proof (cases "ws = []")
    case True
    with same have "m' = m1" by simp
    with m1 show ?thesis by (metis in_set_conv_nth option.distinct(1))
  next
    case False
    with some show ?thesis by simp
  qed
  ultimately show ?case by simp
qed

lemma insert_policies_result:
  assumes "insert_policies tbl sc w wd row i pl = Inr tbl'" and "distinct (map fst pl)"
  shows "\<exists>new. tbl' = tbl @ new \<and> (\<forall>r\<in>set new. workload r = w) \<and>
     (\<forall>j<length pl. map cache_hit_rate (filter (\<lambda>r. policy r = fst (pl ! j)) new) = [row ! (i + j)]) \<and>
     (\<forall>p. p \<notin> fst ` set pl \<longrightarrow> filter (\<lambda>r. policy r = p) new = [])"
  using assms
proof (induction pl arbitrary: tbl i)
  case Nil
  then show ?case by simp
next
  case (Cons a pl)
  obtain p pd cpp where a: "a = (p, pd, cpp)" by (cases a)
  from Cons.prems a obtain s where s: "sc p = Some s"
    and r: "insert_policies
       (tbl @ [\<lparr>workload = w, policy = p, policy_description = pd,
                workload_description = wd, cpp_file_path = cpp,
                cache_hit_rate = row ! i, score = s\<rparr>]) sc w wd row (Suc i) pl = Inr tbl'"
    by (auto split: if_splits option.splits)
  let ?r0 = "\<lparr>workload = w, policy = p, policy_description = pd,
                workload_description = wd, cpp_file_path = cpp,
                cache_hit_rate = row ! i, score = s\<rparr>"
  from Cons.prems(2) a have d: "distinct (map fst pl)" and np: "p \<notin> fst ` set pl" by simp_all
  from Cons.IH [OF r d] obtain new1 where t: "tbl' = (tbl @ [?r0]) @ new1"
    and wl: "\<forall>r\<in>set new1. workload r = w"
    and ins: "\<forall>j<length pl. map cache_hit_rate (filter (\<lambda>r. policy r = fst (pl ! j)) new1)
        = [row ! (Suc i + j)]"
    and out: "\<forall>q. q \<notin> fst ` set pl \<longrightarrow> filter (\<lambda>r. policy r = q) new1 = []"
    by blast
  have 1: "tbl' = tbl @ (?r0 # new1)" using t by simp
  have 2: "\<forall>r\<in>set (?r0 # new1). workload r = w" using wl by simp
  have 3: "\<forall>j<length (a # pl).
      map cache_hit_rate (filter (\<lambda>r. policy r = fst ((a # pl) ! j)) (?r0 # new1)) = [row ! (i + j)]"
  proof (intro allI impI)
    fix j
    assume j: "j < length (a # pl)"
    show "map cache_hit_rate (filter (\<lambda>r. policy r = fst ((a # pl) ! j)) (?r0 # new1))
        = [row ! (i + j)]"
    proof (cases j)
      case 0
      with out np a show ?thesis by simp
    next
      case (Suc k)
      with j have k: "k < length pl" by simp
      then have "fst (pl ! k) \<in> fst ` set pl" by simp
      with np have "fst (pl ! k) \<noteq> p" by metis
      with ins k Suc show ?thesis by simp
    qed
  qed
  have 4: "\<forall>q. q \<notin> fst ` set (a # pl) \<longrightarrow> filter (\<lambda>r. policy r = q) (?r0 # new1) = []"
    using out a by auto
  from 1 2 3 4 show ?case by blast
qed

lemma insert_workloads_result:
  assumes "insert_workloads tbl sc perf wl pl = Inr tbl'" and "distinct (map fst pl)"
    and "''all'' \<notin> fst ` set wl"
  shows "\<exists>new. tbl' = tbl @ new \<and> (\<forall>r\<in>set new. workload r \<noteq> ''all'') \<and>
     (\<forall>j<length pl. map cache_hit_rate (filter (\<lambda>r. policy r = fst (pl ! j)) new) =
        map (\<lambda>w. the (map_of perf w) ! j) (map fst wl))"
  using assms
proof (induction wl arbitrary: tbl)
  case Nil
  then show ?case by simp
next
  case (Cons a wl)
  obtain w wd tr where a: "a = (w, wd, tr)" by (cases a)
  from Cons.prems a obtain row t1 where row: "map_of perf w = Some row"
    and i: "insert_policies tbl sc w wd row 0 pl = Inr t1"
    and r: "insert_workloads t1 sc perf wl pl = Inr tbl'"
    by (auto split: option.splits sum.splits)
  from Cons.prems(3) a have nw: "w \<noteq> ''all''" and na: "''all'' \<notin> fst ` set wl" by auto
  from insert_policies_result [OF i Cons.prems(2)] obtain n1 where t1: "t1 = tbl @ n1"
    and w1: "\<forall>r\<in>set n1. workload r = w"
    and f1: "\<forall>j<length pl. map cache_hit_rate (filter (\<lambda>r. policy r = fst (pl ! j)) n1) = [row ! j]"
    by auto
  from Cons.IH [OF r Cons.prems(2) na] obtain n2 where t2: "tbl' = t1 @ n2"
    and w2: "\<forall>r\<in>set n2. workload r \<noteq> ''all''"
    and f2: "\<forall>j<length pl. map cache_hit_rate (filter (\<lambda>r. policy r = fst (pl ! j)) n2) =
        map (\<lambda>w. the (map_of perf w) ! j) (map fst wl)"
    by blast
  have 1: "tbl' = tbl @ (n1 @ n2)" using t1 t2 by simp
  have 2: "\<forall>r\<in>set (n1 @ n2). workload r \<noteq> ''all''" using w1 w2 nw by auto
  have 3: "\<forall>j<length pl. map cache_hit_rate (filter (\<lambda>r. policy r = fst (pl ! j)) (n1 @ n2)) =
        map (\<lambda>w. the (map_of perf w) ! j) (map fst (a # wl))"
    using f1 f2 row a by simp
  from 1 2 3 show ?case by blast
qed

lemma insert_all_result:
  assumes "insert_all tbl sc pl = Inr tbl'" and "distinct (map fst pl)"
  shows "\<exists>new. tbl' = tbl @ new \<and> (\<forall>r\<in>set new. workload r = ''all'') \<and>
     (\<forall>p\<in>fst ` set pl. \<exists>s. sc p = Some s \<and> map score (filter (\<lambda>r. policy r = p) new) = [s]) \<and>
     (\<forall>p. p \<notin> fst ` set pl \<longrightarrow> filter (\<lambda>r. policy r = p) new = [])"
  using assms
proof (induction pl arbitrary: tbl)
  case Nil
  then show ?case by simp
next
  case (Cons a pl)
  obtain p pd cpp where a: "a = (p, pd, cpp)" by (cases a)
  from Cons.prems a obtain s where s: "sc p = Some s"
    and r: "insert_all
       (tbl @ [\<lparr>workload = ''all'', policy = p, policy_description = pd,
                workload_description = [], cpp_file_path = cpp,
                cache_hit_rate = s, score = s\<rparr>]) sc pl = Inr tbl'"
    by (auto split: option.splits)
  let ?r0 = "\<lparr>workload = ''all'', policy = p, policy_description = pd,
                workload_description = [], cpp_file_path = cpp,
                cache_hit_rate = s, score = s\<rparr>"
  from Cons.prems(2) a have d: "distinct (map fst pl)" and np: "p \<notin> fst ` set pl" by simp_all
  from Cons.IH [OF r d] obtain new1 where t: "tbl' = (tbl @ [?r0]) @ new1"
    and wl: "\<forall>r\<in>set new1. workload r = ''all''"
    and ins: "\<forall>q\<in>fst ` set pl. \<exists>s. sc q = Some s \<and>
        map score (filter (\<lambda>r. policy r = q) new1) = [s]"
    and out: "\<forall>q. q \<notin> fst ` set pl \<longrightarrow> filter (\<lambda>r. policy r = q) new1 = []"
    by blast
  have 1: "tbl' = tbl @ (?r0 # new1)" using t by simp
  have 2: "\<forall>r\<in>set (?r0 # new1). workload r = ''all''" using wl by simp
  have 3: "\<forall>q\<in>fst ` set (a # pl). \<exists>s. sc q = Some s \<and>
      map score (filter (\<lambda>r. policy r = q) (?r0 # new1)) = [s]"
  proof
    fix q
    assume q: "q \<in> fst ` set (a # pl)"
    show "\<exists>s. sc q = Some s \<and> map score (filter (\<lambda>r. policy r = q) (?r0 # new1)) = [s]"
    proof (cases "q = p")
      case True
      with out np s show ?thesis by simp
    next
      case False
      with q a have "q \<in> fst ` set pl" by auto
      with ins False show ?thesis by auto
    qed
  qed
  have 4: "\<forall>q. q \<notin> fst ` set (a # pl) \<longrightarrow> filter (\<lambda>r. policy r = q) (?r0 # new1) = []"
    using out a by auto
  from 1 2 3 4 show ?case by blast
qed

lemma filter_conj_all:
  assumes "\<forall>r\<in>set xs. P r"
  shows "filter (\<lambda>r. P r \<and> Q r) xs = filter Q xs"
  using assms by (induction xs) auto

lemma filter_conj_none:
  assumes "\<forall>r\<in>set xs. \<not> P r"
  shows "filter (\<lambda>r. P r \<and> Q r) xs = []"
  using assms by (induction xs) auto

lemma seed_db_mean:
  assumes "seed_db wl pl perf = Inr tbl'" and "distinct (map fst pl)"
    and "''all'' \<notin> fst ` set wl" and "p \<in> fst ` set pl"
  shows "map score (filter (\<lambda>r. workload r = ''all'' \<and> policy r = p) tbl') =
     [mean (map cache_hit_rate (filter (\<lambda>r. workload r \<noteq> ''all'' \<and> policy r = p) tbl'))]"
proof -
  from assms(1) obtain m t1
    where hr: "policy_hit_rates Map.empty perf (map fst wl) (map fst pl) = Inr m"
      and iw: "insert_workloads [] (policy_scores m) perf wl pl = Inr t1"
      and ia: "insert_all t1 (policy_scores m) pl = Inr tbl'"
    by (auto simp: seed_db_def split: sum.splits)
  from assms(4) obtain j where j: "j < length pl" and pj: "p = fst (pl ! j)"
    by (auto simp: in_set_conv_nth)
  let ?h = "map (\<lambda>w. the (map_of perf w) ! j) (map fst wl)"
  from insert_workloads_result [OF iw assms(2,3)] obtain nW where nW: "t1 = [] @ nW \<and>
     (\<forall>r\<in>set nW. workload r \<noteq> ''all'') \<and>
     (\<forall>j<length pl. map cache_hit_rate (filter (\<lambda>r. policy r = fst (pl ! j)) nW) =
        map (\<lambda>w. the (map_of perf w) ! j) (map fst wl))" ..
  then have t1: "t1 = nW" and wW: "\<forall>r\<in>set nW. workload r \<noteq> ''all''"
    and allj: "\<forall>j<length pl. map cache_hit_rate (filter (\<lambda>r. policy r = fst (pl ! j)) nW) =
        map (\<lambda>w. the (map_of perf w) ! j) (map fst wl)"
    by simp_all
  from allj j pj have fW: "map cache_hit_rate (filter (\<lambda>r. policy r = p) nW) = ?h" by simp
  from insert_all_result [OF ia assms(2)] obtain nA where nA: "tbl' = t1 @ nA \<and>
     (\<forall>r\<in>set nA. workload r = ''all'') \<and>
     (\<forall>p\<in>fst ` set pl. \<exists>s. policy_scores m p = Some s \<and>
        map score (filter (\<lambda>r. policy r = p) nA) = [s]) \<and>
     (\<forall>p. p \<notin> fst ` set pl \<longrightarrow> filter (\<lambda>r. policy r = p) nA = [])" ..
  note t = nA [THEN conjunct1]
  note wA = nA [THEN conjunct2, THEN conjunct1]
  note allp = nA [THEN conjunct2, THEN conjunct2, THEN conjunct1]
  from bspec [OF allp assms(4)] obtain s where sc: "policy_scores m p = Some s"
    and fA: "map score (filter (\<lambda>r. policy r = p) nA) = [s]"
    by (elim exE conjE)
  have rates: "map cache_hit_rate (filter (\<lambda>r. workload r \<noteq> ''all'' \<and> policy r = p) tbl') = ?h"
    unfolding t t1 filter_append
    using filter_conj_all [OF wW, of "\<lambda>r. policy r = p"]
      filter_conj_none [of nA "\<lambda>r. workload r \<noteq> ''all''" "\<lambda>r. policy r = p"] wA fW
    by simp
  have scores: "map score (filter (\<lambda>r. workload r = ''all'' \<and> policy r = p) tbl') = [s]"
    unfolding t t1 filter_append
    using filter_conj_all [OF wA, of "\<lambda>r. policy r = p"]
      filter_conj_none [of nW "\<lambda>r. workload r = ''all''" "\<lambda>r. policy r = p"] wW fA
    by simp
  from policy_hit_rates_result [OF hr] assms(2) j
  have ro: "rates_of m (map fst pl ! j) = rates_of Map.empty (map fst pl ! j) @
        map (\<lambda>w. the (map_of perf w) ! j) (map fst wl)"
    and em: "map fst wl = [] \<longrightarrow> m = Map.empty"
    by simp_all
  from sc obtain h where mp: "m p = Some h"
    by (auto simp: policy_scores_def split: option.splits)
  then have ne: "wl \<noteq> []" using em by auto
  from ro j pj mp have h: "h = ?h" by (simp add: rates_of_def)
  with ne have "h \<noteq> []" by simp
  with sc mp have "s = mean h" by (simp add: policy_scores_def mean_def)
  with scores rates h show ?thesis by simp
qed

text \<open>
  C3. A pass of the loop that evaluates its candidate appends one row per workload, in
  the order of \<open>workloads\<close> and all under the candidate's name, and after them one row
  under \<open>all\<close> whose score is the sum of the hit rates of those rows divided by their
  number; that score is the new \<open>current_hit\<close>. In the table the seeding script
  builds, the one row under \<open>all\<close> of every policy has as score the mean of the hit
  rates in that policy's rows under the workloads (the names of the policies being the
  keys of a dictionary, hence distinct, and no workload being called \<open>all\<close>).
\<close>

theorem aggregate_is_mean:
  "(parse_reply (reply inp) = Inr (name, desc, code) \<and> build_ok inp \<and>
    run_workloads workloads (runs inp) name desc (cc_path (iter st) (sanitize name)) 0 (db st)
      = Inr (tmp, tbl) \<longrightarrow>
      (\<exists>rows agg. db (state_of (loop_body inp st)) = db st @ rows @ [agg] \<and>
         map workload rows = map fst workloads \<and> (\<forall>r\<in>set rows. policy r = name) \<and>
         workload agg = ''all'' \<and> policy agg = name \<and>
         score agg = mean (map cache_hit_rate rows) \<and> cache_hit_rate agg = score agg \<and>
         current_hit (state_of (loop_body inp st)) = score agg)) \<and>
   (seed_db wl pl perf = Inr tbl' \<and> distinct (map fst pl) \<and> ''all'' \<notin> fst ` set wl \<and>
    p \<in> fst ` set pl \<longrightarrow>
      map score (filter (\<lambda>r. workload r = ''all'' \<and> policy r = p) tbl') =
        [mean (map cache_hit_rate (filter (\<lambda>r. workload r \<noteq> ''all'' \<and> policy r = p) tbl'))])"
proof (intro conjI impI)
  assume "parse_reply (reply inp) = Inr (name, desc, code) \<and> build_ok inp \<and>
    run_workloads workloads (runs inp) name desc (cc_path (iter st) (sanitize name)) 0 (db st)
      = Inr (tmp, tbl)"
  then show "\<exists>rows agg. db (state_of (loop_body inp st)) = db st @ rows @ [agg] \<and>
         map workload rows = map fst workloads \<and> (\<forall>r\<in>set rows. policy r = name) \<and>
         workload agg = ''all'' \<and> policy agg = name \<and>
         score agg = mean (map cache_hit_rate rows) \<and> cache_hit_rate agg = score agg \<and>
         current_hit (state_of (loop_body inp st)) = score agg"
    using loop_body_rows_mean [of inp name desc code st tmp tbl] by blast
next
  assume "seed_db wl pl perf = Inr tbl' \<and> distinct (map fst pl) \<and> ''all'' \<notin> fst ` set wl \<and>
    p \<in> fst ` set pl"
  then show "map score (filter (\<lambda>r. workload r = ''all'' \<and> policy r = p) tbl') =
        [mean (map cache_hit_rate (filter (\<lambda>r. workload r \<noteq> ''all'' \<and> policy r = p) tbl'))]"
    using seed_db_mean [of wl pl perf tbl' p] by blast
qed

theorem aggregate_is_mean_witness:
  "(\<exists>rows agg.
      db (state_of (loop_body mixed_pass
        \<lparr>iter = 1, best_hit = 1 / 2, current_hit = 1 / 2, prev_name = None,
         prev_desc = None, prev_code = None, db = [], disk = Map.empty\<rparr>)) = rows @ [agg] \<and>
      map workload rows = map fst workloads \<and> workload agg = ''all'' \<and>
      score agg = mean (map cache_hit_rate rows) \<and>
      current_hit (state_of (loop_body mixed_pass
        \<lparr>iter = 1, best_hit = 1 / 2, current_hit = 1 / 2, prev_name = None,
         prev_desc = None, prev_code = None, db = [], disk = Map.empty\<rparr>)) = 1 / 10) \<and>
   (\<exists>t. seed_db (db_workloads (\<lambda>w. [])) (policies (\<lambda>p. [])) perf_data = Inr t \<and>
      map score (filter (\<lambda>r. workload r = ''all'' \<and> policy r = ''LRU'') t) =
        [mean (map cache_hit_rate (filter (\<lambda>r. workload r \<noteq> ''all'' \<and> policy r = ''LRU'') t))] \<and>
      map score (filter (\<lambda>r. workload r = ''all'' \<and> policy r = ''LRU'') t) =
        [208436694738322793 / 500000000000000000])"
proof -
  let ?st = "\<lparr>iter = 1, best_hit = 1 / 2, current_hit = 1 / 2, prev_name = None,
         prev_desc = None, prev_code = None, db = [], disk = Map.empty\<rparr>"
  have p: "parse_reply (reply mixed_pass) = Inr (''My Policy'', ''Keeps hot lines.'', ''int x;'')"
    and b: "build_ok mixed_pass"
    by (simp_all add: mixed_pass_def example_reply_parsed)
  obtain tb where r: "run_workloads workloads (runs mixed_pass) ''My Policy'' ''Keeps hot lines.''
      (cc_path (iter ?st) (sanitize ''My Policy'')) 0 (db ?st) = Inr (1 / 2, tb)"
    by (simp add: mixed_pass_def workloads_def example_reports)
  from aggregate_is_mean [of mixed_pass "''My Policy''" "''Keeps hot lines.''" "''int x;''" ?st
      "1 / 2" tb, THEN conjunct1, THEN mp, OF conjI [OF p conjI [OF b r]]]
  obtain rows agg where d: "db (state_of (loop_body mixed_pass ?st)) = db ?st @ rows @ [agg]"
    and w: "map workload rows = map fst workloads" "workload agg = ''all''"
    and m: "score agg = mean (map cache_hit_rate rows)"
    and c: "current_hit (state_of (loop_body mixed_pass ?st)) = score agg"
    by blast
  from loop_body_db(2) [OF p b r] have "current_hit (state_of (loop_body mixed_pass ?st)) = 1 / 10"
    by (simp add: workloads_def)
  with d w m have loop: "\<exists>rows agg.
      db (state_of (loop_body mixed_pass ?st)) = rows @ [agg] \<and>
      map workload rows = map fst workloads \<and> workload agg = ''all'' \<and>
      score agg = mean (map cache_hit_rate rows) \<and>
      current_hit (state_of (loop_body mixed_pass ?st)) = 1 / 10"
    by (intro exI [of _ rows] exI [of _ agg]) simp
  let ?wl = "db_workloads (\<lambda>w. [])" and ?pl = "policies (\<lambda>p. [])"
  have v: "(case seed_db ?wl ?pl perf_data of
      Inr t \<Rightarrow> map score (filter (\<lambda>r. workload r = ''all'' \<and> policy r = ''LRU'') t) =
        [208436694738322793 / 500000000000000000]
    | Inl e \<Rightarrow> False)"
    by code_simp
  then obtain t where t: "seed_db ?wl ?pl perf_data = Inr t"
    and val: "map score (filter (\<lambda>r. workload r = ''all'' \<and> policy r = ''LRU'') t) =
        [208436694738322793 / 500000000000000000]"
    by (cases "seed_db ?wl ?pl perf_data") simp_all
  have dist: "distinct (map fst ?pl)" by (simp add: policies_def)
  have na: "''all'' \<notin> fst ` set ?wl" by (simp add: db_workloads_def)
  have mem: "''LRU'' \<in> fst ` set ?pl" by (simp add: policies_def)
  from aggregate_is_mean [of _ _ _ _ _ _ _ ?wl ?pl perf_data t "''LRU''",
      THEN conjunct2, THEN mp, OF conjI [OF t conjI [OF dist conjI [OF na mem]]]] t val
  have "\<exists>t. seed_db ?wl ?pl perf_data = Inr t \<and>
      map score (filter (\<lambda>r. workload r = ''all'' \<and> policy r = ''LRU'') t) =
        [mean (map cache_hit_rate (filter (\<lambda>r. workload r \<noteq> ''all'' \<and> policy r = ''LRU'') t))] \<and>
      map score (filter (\<lambda>r. workload r = ''all'' \<and> policy r = ''LRU'') t) =
        [208436694738322793 / 500000000000000000]"
    by (intro exI [of _ t] conjI)
  with loop show ?thesis by (rule conjI)
qed

end
